theory Spec2Isabelle
  imports Main "HOL-Library.Word" "HOL-Library.AList"
begin

unbundle bit_operations_syntax

section \<open>Bytes and the byte-level library functions the code calls\<close>

type_synonym byte = "8 word"

text \<open>
  \<open>binary.LittleEndian.PutUint32\<close> and \<open>binary.LittleEndian.Uint32\<close> of Go's
  \<open>encoding/binary\<close>: byte \<open>k\<close> of the buffer is bits \<open>8k .. 8k+7\<close> of the value.
  \<open>PutUint32\<close> is called on a fresh 4-byte buffer, so the model returns the four bytes.
  \<open>Uint32\<close> panics on a buffer shorter than 4 bytes; its only caller passes
  \<open>buffer[:4]\<close> after the length check.
\<close>

definition PutUint32 :: "32 word \<Rightarrow> byte list" where
  "PutUint32 v = [ucast v, ucast (drop_bit 8 v), ucast (drop_bit 16 v), ucast (drop_bit 24 v)]"

definition Uint32 :: "byte list \<Rightarrow> 32 word" where
  "Uint32 b = ucast (b ! 0) OR push_bit 8 (ucast (b ! 1))
              OR push_bit 16 (ucast (b ! 2)) OR push_bit 24 (ucast (b ! 3))"

text \<open>
  \<open>(*big.Int).Bytes\<close> returns the absolute value as a big-endian byte slice without
  leading zero bytes (empty for 0); \<open>(*big.Int).SetBytes\<close> reads a big-endian unsigned
  integer.
\<close>

function be_bytes :: "nat \<Rightarrow> byte list" where
  "be_bytes n = (if n = 0 then [] else be_bytes (n div 256) @ [of_nat (n mod 256)])"
  by pat_completeness auto
termination
  by (relation "measure id") auto

declare be_bytes.simps [simp del]

definition be_value :: "byte list \<Rightarrow> nat" where
  "be_value bs = foldl (\<lambda>acc b. acc * 256 + unat b) 0 bs"

definition big_Bytes :: "int \<Rightarrow> byte list" where
  "big_Bytes n = be_bytes (nat \<bar>n\<bar>)"

definition big_SetBytes :: "byte list \<Rightarrow> int" where
  "big_SetBytes bs = int (be_value bs)"

text \<open>
  \<open>bytes.Compare\<close>: lexicographic comparison of two byte slices, giving -1, 0 or 1.
\<close>

fun bytes_Compare :: "byte list \<Rightarrow> byte list \<Rightarrow> int" where
  "bytes_Compare [] [] = 0"
| "bytes_Compare [] (y # ys) = - 1"
| "bytes_Compare (x # xs) [] = 1"
| "bytes_Compare (x # xs) (y # ys) =
     (if x < y then - 1 else if y < x then 1 else bytes_Compare xs ys)"

section \<open>crypto.go: the canonical encoding of a public key\<close>

text \<open>
  \<open>rsa.PublicKey\<close> has a modulus \<open>N\<close> (a \<open>*big.Int\<close>, unbounded and signed) and an
  exponent \<open>E\<close> (a Go \<open>int\<close>, 64 bits wide, read as two's complement by \<open>sint\<close>).
\<close>

record PublicKey =
  N :: int
  E :: "64 word"

datatype error = NotLongEnough

definition PublicKeyToBytes :: "PublicKey \<Rightarrow> byte list" where
  "PublicKeyToBytes publicKey =
     PutUint32 (ucast (E publicKey)) @ big_Bytes (N publicKey)"

definition PublicKeyFromBytes :: "byte list \<Rightarrow> error + PublicKey" where
  "PublicKeyFromBytes buffer =
     (if length buffer \<le> 4 then Inl NotLongEnough
      else Inr \<lparr>N = big_SetBytes (drop 4 buffer), E = ucast (Uint32 (take 4 buffer))\<rparr>)"

section \<open>routine.go: the nonce-acceptance check of mine()\<close>

text \<open>
  The inner loop \<open>for i := 0; i < zeroBytes; i++\<close> over the hash: \<open>bytes_loop hash i k\<close>
  runs the \<open>k\<close> remaining passes from index \<open>i\<close>. Reading past the end of the slice
  panics in Go; that is the value \<open>None\<close>. \<open>Some False\<close> is \<open>continue MineIter\<close>.
\<close>

fun bytes_loop :: "byte list \<Rightarrow> nat \<Rightarrow> nat \<Rightarrow> bool option" where
  "bytes_loop hash i 0 = Some True"
| "bytes_loop hash i (Suc k) =
     (if length hash \<le> i then None
      else if hash ! i \<noteq> 0 then Some False
      else bytes_loop hash (Suc i) k)"

text \<open>
  The check applied to the hash of the header for one nonce. \<open>TARGET\<close> is a constant of
  the package \<open>blockchain\<close>; it is a parameter here.
\<close>

definition nonce_ok :: "nat \<Rightarrow> byte list \<Rightarrow> bool option" where
  "nonce_ok TARGET hash =
     (let zeroBytes = TARGET div 8; zeroBits = TARGET mod 8 in
      case bytes_loop hash 0 zeroBytes of
        None \<Rightarrow> None
      | Some False \<Rightarrow> Some False
      | Some True \<Rightarrow>
          if 0 < zeroBits then
            (if length hash \<le> zeroBytes then None
             else Some (drop_bit (8 - zeroBits) (hash ! zeroBytes) = 0))
          else Some True)"

text \<open>
  The specification's reading of the difficulty target: the first \<open>n\<close> bits of the hash
  are zero, bit \<open>k\<close> of the hash being bit \<open>7 - k mod 8\<close> (most significant first) of
  byte \<open>k div 8\<close>.
\<close>

definition leading_bits_zero :: "nat \<Rightarrow> byte list \<Rightarrow> bool" where
  "leading_bits_zero n hash = (\<forall>k \<in> {..<n}. \<not> bit (hash ! (k div 8)) (7 - k mod 8))"

definition bytes_then_bits_zero :: "nat \<Rightarrow> byte list \<Rightarrow> bool" where
  "bytes_then_bits_zero n hash =
     ((\<forall>i \<in> {..<n div 8}. hash ! i = 0) \<and>
      (\<forall>j \<in> {..<n mod 8}. \<not> bit (hash ! (n div 8)) (7 - j)))"

section \<open>The data model of package blockchain\<close>

text \<open>
  The struct declarations of \<open>Post\<close>, \<open>PostBody\<close>, \<open>BlockHeader\<close> and \<open>Block\<close> as the
  miner, the tests and the user client use them. Go's \<open>int64\<close> timestamps are 64-bit
  words compared as two's complement numbers. The field \<open>Timestamp\<close> of \<open>BlockHeader\<close>
  is \<open>BlockTimestamp\<close> here, since \<open>PostBody\<close> has a field of the same name.
\<close>

record PostBody =
  Content :: string
  Timestamp :: "64 word"

record Post =
  User :: PublicKey
  Signature :: "byte list"
  Body :: PostBody

record BlockHeader =
  PrevHash :: "byte list"
  Summary :: "byte list"
  BlockTimestamp :: "64 word"
  Nonce :: "32 word"

record Block =
  Header :: BlockHeader
  Posts :: "Post list"

text \<open>
  What the model takes as given: \<open>Hash\<close> (gob serialisation followed by SHA-256) at the
  three types it is applied to, the RSA signature check \<open>rsa.VerifyPKCS1v15\<close>, and the
  constant \<open>TARGET\<close>.
\<close>

record deps =
  Hash_header :: "BlockHeader \<Rightarrow> byte list"
  Hash_posts :: "Post list \<Rightarrow> byte list"
  Hash_body :: "PostBody \<Rightarrow> byte list"
  rsa_VerifyPKCS1v15 :: "PublicKey \<Rightarrow> byte list \<Rightarrow> byte list \<Rightarrow> bool"
  TARGET :: nat

text \<open>\<open>Verify\<close> of crypto.go, called on a post body.\<close>

definition Verify :: "deps \<Rightarrow> PublicKey \<Rightarrow> PostBody \<Rightarrow> byte list \<Rightarrow> bool" where
  "Verify d publicKey object signature =
     rsa_VerifyPKCS1v15 d publicKey (Hash_body d object) signature"

text \<open>
  Modelled from the spec: the method \<open>Post.Verify\<close>, whose file is not among the sources.
  A Post is valid iff the signature verifies against the stated public key over the body.
\<close>

definition Post_Verify :: "deps \<Rightarrow> Post \<Rightarrow> bool" where
  "Post_Verify d post = Verify d (User post) (Body post) (Signature post)"

text \<open>
  Modelled from the spec: the method \<open>Block.Verify\<close>, whose file is not among the sources.
  A Block is valid iff every Post verifies, the header's summary equals the hash of the
  post list, and the header's hash meets the difficulty target.
\<close>

definition Block_Verify :: "deps \<Rightarrow> Block \<Rightarrow> bool" where
  "Block_Verify d block =
     (list_all (Post_Verify d) (Posts block)
      \<and> Summary (Header block) = Hash_posts d (Posts block)
      \<and> nonce_ok (TARGET d) (Hash_header d (Header block)) = Some True)"

section \<open>miner.go: the comparator and the two ordered sets\<close>

text \<open>The comparator \<open>miner.cmp\<close> installed by \<open>NewMiner\<close>.\<close>

definition cmp :: "Post \<Rightarrow> Post \<Rightarrow> int" where
  "cmp post1 post2 =
     (if Timestamp (Body post1) \<noteq> Timestamp (Body post2) then
        (if word_sless (Timestamp (Body post1)) (Timestamp (Body post2)) then - 1 else 1)
      else bytes_Compare (PublicKeyToBytes (User post1)) (PublicKeyToBytes (User post2)))"

text \<open>
  Two posts with the same timestamp and the same public-key bytes: the posts the
  comparator does not tell apart, whatever their content and signature.
\<close>

definition same_key_and_time :: "Post \<Rightarrow> Post \<Rightarrow> bool" where
  "same_key_and_time p x =
     (Timestamp (Body p) = Timestamp (Body x)
      \<and> PublicKeyToBytes (User p) = PublicKeyToBytes (User x))"

text \<open>
  \<open>treeset.Set\<close> of the library \<open>gods\<close>, built with \<open>treeset.NewWith(m.cmp)\<close>: a set
  that holds at most one element of each class of the comparator and iterates in the
  comparator's order. It is the list of its elements in iteration order. \<open>Contains\<close>
  finds an element that compares equal; \<open>Add\<close> of an element that compares equal to a
  stored one overwrites the stored one; \<open>Remove\<close> deletes the element that compares
  equal.
\<close>

type_synonym treeset = "Post list"

definition treeset_Contains :: "treeset \<Rightarrow> Post \<Rightarrow> bool" where
  "treeset_Contains s x = list_ex (\<lambda>y. cmp x y = 0) s"

fun treeset_Add :: "treeset \<Rightarrow> Post \<Rightarrow> treeset" where
  "treeset_Add [] x = [x]"
| "treeset_Add (y # ys) x =
     (if cmp x y = 0 then x # ys
      else if cmp x y < 0 then x # y # ys
      else y # treeset_Add ys x)"

definition treeset_Remove :: "treeset \<Rightarrow> Post \<Rightarrow> treeset" where
  "treeset_Remove s x = filter (\<lambda>y. cmp x y \<noteq> 0) s"

text \<open>
  The writable fields of \<open>Miner\<close>, the ones its lock protects: the chain, the
  accepted-post index \<open>posts\<close> and the pool.
\<close>

record Miner =
  blockChain :: "Block list"
  posts :: treeset
  pool :: treeset

definition NewMiner :: Miner where
  "NewMiner = \<lparr>blockChain = [], posts = [], pool = []\<rparr>"

definition StatusOK :: int where
  "StatusOK = 200"

definition StatusBadRequest :: int where
  "StatusBadRequest = 400"

definition PostsPerBlock :: nat where
  "PostsPerBlock = 2"

definition MiningIterations :: nat where
  "MiningIterations = 10000"

text \<open>
  A handler's answer is the status code and the JSON body: \<open>None\<close> for \<open>nil\<close>,
  \<open>Some msg\<close> for \<open>map[string]string{"error": msg}\<close>.
\<close>

type_synonym answer = "int \<times> string option"

section \<open>routine.go: the request handlers\<close>

definition writeHandler :: "deps \<Rightarrow> Miner \<Rightarrow> Post \<Rightarrow> answer \<times> Miner" where
  "writeHandler d m post =
     (if \<not> Post_Verify d post then ((StatusBadRequest, Some ''invalid post''), m)
      else if treeset_Contains (posts m) post then
        ((StatusBadRequest, Some ''duplicated post on the blockchain''), m)
      else if treeset_Contains (pool m) post then
        ((StatusBadRequest, Some ''duplicated post in the post''), m)
      else ((StatusOK, None), m\<lparr>pool := treeset_Add (pool m) post\<rparr>))"

text \<open>The second loop of \<open>syncHandler\<close>: the pool argument is the pool so far.\<close>

fun sync_loop :: "treeset \<Rightarrow> treeset \<Rightarrow> Post list \<Rightarrow> treeset" where
  "sync_loop idx pl [] = pl"
| "sync_loop idx pl (post # rest) =
     (if treeset_Contains idx post \<or> treeset_Contains pl post then sync_loop idx pl rest
      else sync_loop idx (treeset_Add pl post) rest)"

definition syncHandler :: "deps \<Rightarrow> Miner \<Rightarrow> Post list \<Rightarrow> answer \<times> Miner" where
  "syncHandler d m ps =
     (if list_ex (\<lambda>post. \<not> Post_Verify d post) ps then
        ((StatusBadRequest, Some ''posts are invalid''), m)
      else ((StatusOK, None), m\<lparr>pool := sync_loop (posts m) (pool m) ps\<rparr>))"

text \<open>
  \<open>broadcastHandler\<close>, loop by loop. \<open>links_loop chain i k\<close> runs the \<open>k\<close> remaining
  passes of \<open>for i := 1; i < len(newChain); i++\<close> from index \<open>i\<close>; \<open>False\<close> is the early
  return.
\<close>

fun links_loop :: "deps \<Rightarrow> Block list \<Rightarrow> nat \<Rightarrow> nat \<Rightarrow> bool" where
  "links_loop d chain i 0 = True"
| "links_loop d chain i (Suc k) =
     (if PrevHash (Header (chain ! i)) \<noteq> Hash_header d (Header (chain ! (i - 1))) then False
      else links_loop d chain (Suc i) k)"

text \<open>
  The duplicate check: the inner loop over the posts of one block and the outer loop over
  the blocks, with the set built so far; \<open>None\<close> is the early return.
\<close>

fun dup_loop_posts :: "treeset \<Rightarrow> Post list \<Rightarrow> treeset option" where
  "dup_loop_posts acc [] = Some acc"
| "dup_loop_posts acc (post # rest) =
     (if treeset_Contains acc post then None
      else dup_loop_posts (treeset_Add acc post) rest)"

fun dup_loop :: "treeset \<Rightarrow> Block list \<Rightarrow> treeset option" where
  "dup_loop acc [] = Some acc"
| "dup_loop acc (block # rest) =
     (case dup_loop_posts acc (Posts block) of
        None \<Rightarrow> None
      | Some acc' \<Rightarrow> dup_loop acc' rest)"

text \<open>
  Adding to the new pool every post of a list that the new index does not contain: the
  loop over the old pool and the inner loop over a discarded block.
\<close>

fun pool_loop :: "treeset \<Rightarrow> treeset \<Rightarrow> Post list \<Rightarrow> treeset" where
  "pool_loop idx pl [] = pl"
| "pool_loop idx pl (post # rest) =
     (if \<not> treeset_Contains idx post then pool_loop idx (treeset_Add pl post) rest
      else pool_loop idx pl rest)"

text \<open>
  The first index at which the header hashes of the two chains differ, searched from
  \<open>i\<close>. The received chain is the longer one, so \<open>newChain ! i\<close> is in range.
\<close>

function prefix_loop :: "deps \<Rightarrow> Block list \<Rightarrow> Block list \<Rightarrow> nat \<Rightarrow> nat" where
  "prefix_loop d chain newChain i =
     (if i < length chain then
        (if Hash_header d (Header (chain ! i)) \<noteq> Hash_header d (Header (newChain ! i)) then i
         else prefix_loop d chain newChain (Suc i))
      else i)"
  by pat_completeness auto
termination
  by (relation "measure (\<lambda>(d, chain, newChain, i). length chain - i)") auto

declare prefix_loop.simps [simp del]

fun discard_loop :: "treeset \<Rightarrow> treeset \<Rightarrow> Block list \<Rightarrow> treeset" where
  "discard_loop idx pl [] = pl"
| "discard_loop idx pl (block # rest) = discard_loop idx (pool_loop idx pl (Posts block)) rest"

definition broadcastHandler :: "deps \<Rightarrow> Miner \<Rightarrow> Block list \<Rightarrow> answer \<times> Miner" where
  "broadcastHandler d m newChain =
     (if length newChain \<le> length (blockChain m) then ((StatusOK, None), m)
      else if list_ex (\<lambda>block. \<not> Block_Verify d block) newChain then ((StatusOK, None), m)
      else if PrevHash (Header (newChain ! 0)) \<noteq> replicate 32 0 then ((StatusOK, None), m)
      else if \<not> links_loop d newChain 1 (length newChain - 1) then ((StatusOK, None), m)
      else
        (case dup_loop [] newChain of
           None \<Rightarrow> ((StatusOK, None), m)
         | Some idx \<Rightarrow>
             (let pl = pool_loop idx [] (pool m);
                  i = prefix_loop d (blockChain m) newChain 0;
                  pl' = discard_loop idx pl (drop i (blockChain m))
              in ((StatusOK, None), \<lparr>blockChain = newChain, posts = idx, pool = pl'\<rparr>))))"

section \<open>routine.go: mining\<close>

text \<open>Go's built-in \<open>copy(dst, src)\<close>, returning the destination slice after the copy.\<close>

definition copy_bytes :: "byte list \<Rightarrow> byte list \<Rightarrow> byte list" where
  "copy_bytes dst src = take (length dst) src @ drop (length src) dst"

text \<open>
  The first part of \<open>mine\<close>, under the read lock: the snapshot of the chain length and
  the candidate block, filled with the first \<open>PostsPerBlock\<close> posts of the pool in
  iteration order. \<open>now\<close> is \<open>time.Now().UnixNano()\<close>.
\<close>

definition mine_prepare :: "deps \<Rightarrow> Miner \<Rightarrow> 64 word \<Rightarrow> nat \<times> Block" where
  "mine_prepare d m now =
     (let ps = take PostsPerBlock (pool m);
          zero = replicate 32 0;
          prev = (if 0 < length (blockChain m)
                  then copy_bytes zero (Hash_header d (Header (last (blockChain m))))
                  else zero)
      in (length (blockChain m),
          \<lparr>Header = \<lparr>PrevHash = prev, Summary = Hash_posts d ps,
                     BlockTimestamp = now, Nonce = 0\<rparr>,
           Posts = ps\<rparr>))"

text \<open>
  The loop \<open>MineIter\<close>: \<open>rnd i\<close> is the value of the \<open>i\<close>-th call of \<open>rand.Uint32()\<close>,
  \<open>k\<close> the number of passes left. The result is the header with the last nonce tried and
  the flag \<open>success\<close>; \<open>None\<close> is a panic of the nonce check.
\<close>

fun MineIter :: "deps \<Rightarrow> BlockHeader \<Rightarrow> (nat \<Rightarrow> 32 word) \<Rightarrow> nat \<Rightarrow> nat
                 \<Rightarrow> (BlockHeader \<times> bool) option" where
  "MineIter d hdr rnd i 0 = Some (hdr, False)"
| "MineIter d hdr rnd i (Suc k) =
     (let hdr' = hdr\<lparr>Nonce := rnd i\<rparr> in
      case nonce_ok (TARGET d) (Hash_header d hdr') of
        None \<Rightarrow> None
      | Some True \<Rightarrow> Some (hdr', True)
      | Some False \<Rightarrow> MineIter d hdr' rnd (Suc i) k)"

text \<open>
  The commit, under the write lock: the loop over the posts of the mined block, then the
  step itself. The second component of the result is the broadcast that follows the
  unlock: the peers it goes to and the chain it carries, or \<open>None\<close> when \<open>mine\<close> returns
  without one.
\<close>

fun commit_loop :: "treeset \<Rightarrow> treeset \<Rightarrow> Post list \<Rightarrow> treeset \<times> treeset" where
  "commit_loop idx pl [] = (idx, pl)"
| "commit_loop idx pl (post # rest) =
     commit_loop (treeset_Add idx post) (treeset_Remove pl post) rest"

definition mine_commit :: "Miner \<Rightarrow> int list \<Rightarrow> nat \<Rightarrow> Block
                           \<Rightarrow> Miner \<times> (int list \<times> Block list) option" where
  "mine_commit m peers snapshot block =
     (if length (blockChain m) \<noteq> snapshot then (m, None)
      else
        (let chain = blockChain m @ [block];
             (idx, pl) = commit_loop (posts m) (pool m) (Posts block)
         in (\<lparr>blockChain = chain, posts = idx, pool = pl\<rparr>, Some (peers, chain))))"

text \<open>
  One call of \<open>mine\<close> when no other handler runs between the unlock and the lock.
\<close>

definition mine :: "deps \<Rightarrow> Miner \<Rightarrow> int list \<Rightarrow> 64 word \<Rightarrow> (nat \<Rightarrow> 32 word)
                    \<Rightarrow> (Miner \<times> (int list \<times> Block list) option) option" where
  "mine d m peers now rnd =
     (let (snapshot, block) = mine_prepare d m now in
      case MineIter d (Header block) rnd 0 MiningIterations of
        None \<Rightarrow> None
      | Some (hdr, False) \<Rightarrow> Some (m, None)
      | Some (hdr, True) \<Rightarrow> Some (mine_commit m peers snapshot (block\<lparr>Header := hdr\<rparr>)))"

text \<open>
  The passes of \<open>routine\<close> that call \<open>mine\<close>, when no handler runs in between:
  \<open>clock i\<close> is the time and \<open>rnd i\<close> the random draws of pass \<open>i\<close>.
\<close>

fun mine_passes :: "deps \<Rightarrow> Miner \<Rightarrow> int list \<Rightarrow> (nat \<Rightarrow> 64 word) \<Rightarrow> (nat \<Rightarrow> nat \<Rightarrow> 32 word)
                    \<Rightarrow> nat \<Rightarrow> Miner option" where
  "mine_passes d m peers clock rnd 0 = Some m"
| "mine_passes d m peers clock rnd (Suc k) =
     (case mine_passes d m peers clock rnd k of
        None \<Rightarrow> None
      | Some m' \<Rightarrow> map_option fst (mine d m' peers (clock k) (rnd k)))"

text \<open>
  The mutating operations of a miner, each one atomic under the write lock, and a run of
  them from the state \<open>NewMiner\<close> builds. The commit takes any snapshot and any block:
  whatever \<open>mine\<close> prepared before other handlers ran.
\<close>

datatype miner_op =
  Write Post
| Sync "Post list"
| Broadcast "Block list"
| Commit "int list" nat Block

fun step :: "deps \<Rightarrow> Miner \<Rightarrow> miner_op \<Rightarrow> Miner" where
  "step d m (Write post) = snd (writeHandler d m post)"
| "step d m (Sync ps) = snd (syncHandler d m ps)"
| "step d m (Broadcast newChain) = snd (broadcastHandler d m newChain)"
| "step d m (Commit peers snapshot block) = fst (mine_commit m peers snapshot block)"

definition run :: "deps \<Rightarrow> miner_op list \<Rightarrow> Miner" where
  "run d ops = foldl (step d) NewMiner ops"

section \<open>The miner as its lock lets it run\<close>

text \<open>
  The handlers run one at a time under the write lock. \<open>mine\<close> holds the read lock
  while it prepares the block and searches the nonce, so no handler changes the miner in
  between; it then takes the write lock for the commit, so handlers may run between the
  search and the commit. \<open>mine_search\<close> is the part of \<open>mine\<close> under the read lock: the
  snapshot and the mined block, or \<open>None\<close> when the search fails.
\<close>

definition mine_search :: "deps \<Rightarrow> Miner \<Rightarrow> 64 word \<Rightarrow> (nat \<Rightarrow> 32 word) \<Rightarrow> (nat \<times> Block) option" where
  "mine_search d m now rnd =
     (let (snapshot, block) = mine_prepare d m now in
      case MineIter d (Header block) rnd 0 MiningIterations of
        Some (hdr, True) \<Rightarrow> Some (snapshot, block\<lparr>Header := hdr\<rparr>)
      | _ \<Rightarrow> None)"

text \<open>
  A node is the miner and the call of \<open>mine\<close> in flight between its unlock and its lock:
  the snapshot and the mined block. \<open>routine\<close> is one thread, so a search starts only
  when no block is pending.
\<close>

record node =
  miner :: Miner
  pending :: "(nat \<times> Block) option"

datatype event =
  Write_ev Post
| Sync_ev "Post list"
| Broadcast_ev "Block list"
| Search_ev "64 word" "nat \<Rightarrow> 32 word"
| Commit_ev "int list"

fun node_step :: "deps \<Rightarrow> node \<Rightarrow> event \<Rightarrow> node" where
  "node_step d s (Write_ev post) = s\<lparr>miner := snd (writeHandler d (miner s) post)\<rparr>"
| "node_step d s (Sync_ev ps) = s\<lparr>miner := snd (syncHandler d (miner s) ps)\<rparr>"
| "node_step d s (Broadcast_ev newChain) =
     s\<lparr>miner := snd (broadcastHandler d (miner s) newChain)\<rparr>"
| "node_step d s (Search_ev now rnd) =
     (case pending s of
        Some p \<Rightarrow> s
      | None \<Rightarrow> s\<lparr>pending := mine_search d (miner s) now rnd\<rparr>)"
| "node_step d s (Commit_ev peers) =
     (case pending s of
        None \<Rightarrow> s
      | Some p \<Rightarrow> \<lparr>miner = fst (mine_commit (miner s) peers (fst p) (snd p)), pending = None\<rparr>)"

definition node_run :: "deps \<Rightarrow> event list \<Rightarrow> node" where
  "node_run d evs = foldl (node_step d) \<lparr>miner = NewMiner, pending = None\<rparr> evs"

section \<open>Chain validity in the words of the specification\<close>

text \<open>
  A Chain is valid iff every block is valid, the first block's previous-hash is all
  zeros, for every \<open>i > 0\<close> block \<open>i\<close>'s previous-hash equals the hash of block
  \<open>i - 1\<close>'s header, and no Post appears in more than one block.
\<close>

definition Chain_valid :: "deps \<Rightarrow> Block list \<Rightarrow> bool" where
  "Chain_valid d chain =
     ((\<forall>b \<in> set chain. Block_Verify d b)
      \<and> (chain \<noteq> [] \<longrightarrow> PrevHash (Header (chain ! 0)) = replicate 32 0)
      \<and> (\<forall>i \<in> {1..<length chain}.
            PrevHash (Header (chain ! i)) = Hash_header d (Header (chain ! (i - 1))))
      \<and> (\<forall>i \<in> {..<length chain}. \<forall>j \<in> {..<length chain}.
            i \<noteq> j \<longrightarrow> set (Posts (chain ! i)) \<inter> set (Posts (chain ! j)) = {}))"

text \<open>
  The same with the duplicate check as the handler makes it: no two post occurrences of
  the chain, in one block or in two, compare equal under the comparator.
\<close>

fun cmp_distinct :: "Post list \<Rightarrow> bool" where
  "cmp_distinct [] = True"
| "cmp_distinct (p # ps) = (\<not> list_ex (\<lambda>q. cmp p q = 0) ps \<and> cmp_distinct ps)"

definition Chain_valid_cmp :: "deps \<Rightarrow> Block list \<Rightarrow> bool" where
  "Chain_valid_cmp d chain =
     ((\<forall>b \<in> set chain. Block_Verify d b)
      \<and> (chain \<noteq> [] \<longrightarrow> PrevHash (Header (chain ! 0)) = replicate 32 0)
      \<and> (\<forall>i \<in> {1..<length chain}.
            PrevHash (Header (chain ! i)) = Hash_header d (Header (chain ! (i - 1))))
      \<and> cmp_distinct (concat (map Posts chain)))"

text \<open>
  What every node reached by a run satisfies. Of the miner: pool and chain hold no two
  posts that compare equal, the index contains every post of the chain and no post of
  the pool, and every block carries the summary hash of its own posts. Of a pending
  block: it carries the summary hash of its posts, its snapshot is at most the chain
  length, and while the chain has the length of the snapshot its posts do not compare
  equal to one another or to a post of the index.
\<close>

definition miner_inv :: "deps \<Rightarrow> Miner \<Rightarrow> bool" where
  "miner_inv d m =
     (cmp_distinct (pool m)
      \<and> cmp_distinct (concat (map Posts (blockChain m)))
      \<and> (\<forall>p \<in> set (concat (map Posts (blockChain m))). treeset_Contains (posts m) p)
      \<and> (\<forall>x \<in> set (pool m). \<not> treeset_Contains (posts m) x)
      \<and> (\<forall>b \<in> set (blockChain m). Summary (Header b) = Hash_posts d (Posts b)))"

definition pending_inv :: "deps \<Rightarrow> Miner \<Rightarrow> nat \<times> Block \<Rightarrow> bool" where
  "pending_inv d m p =
     (Summary (Header (snd p)) = Hash_posts d (Posts (snd p))
      \<and> fst p \<le> length (blockChain m)
      \<and> (length (blockChain m) = fst p \<longrightarrow>
            cmp_distinct (Posts (snd p))
            \<and> (\<forall>q \<in> set (Posts (snd p)). \<not> treeset_Contains (posts m) q)))"

definition node_inv :: "deps \<Rightarrow> node \<Rightarrow> bool" where
  "node_inv d s =
     (miner_inv d (miner s)
      \<and> (case pending s of None \<Rightarrow> True | Some p \<Rightarrow> pending_inv d (miner s) p))"

section \<open>tracker.go\<close>

text \<open>
  A \<open>*time.Timer\<close> made by \<open>time.AfterFunc\<close> is a handle: an index into the table of all
  timers made so far. A timer holds the port its callback deletes, the time at which it
  fires (in nanoseconds, as \<open>time.Duration\<close> counts) and whether it is still pending,
  was stopped, or has fired. The map \<open>miners\<close> is an association list; Go leaves the
  iteration order of a map open, and nothing below depends on the order.
\<close>

datatype timer_status = Pending | Stopped | Fired

record Timer =
  timer_port :: int
  fires_at :: int
  status :: timer_status

record Tracker =
  miners :: "(int \<times> nat) list"
  timers :: "Timer list"

definition EntryTimeout :: int where
  "EntryTimeout = 500 * 1000000"

definition NewTracker :: Tracker where
  "NewTracker = \<lparr>miners = [], timers = []\<rparr>"

text \<open>\<open>timer.Stop()\<close>: a pending timer will not fire any more.\<close>

definition timer_Stop :: "Timer list \<Rightarrow> nat \<Rightarrow> Timer list" where
  "timer_Stop ts h =
     (if h < length ts \<and> status (ts ! h) = Pending then ts[h := (ts ! h)\<lparr>status := Stopped\<rparr>]
      else ts)"

definition registerHandler :: "Tracker \<Rightarrow> int \<Rightarrow> int \<Rightarrow> (int \<times> int list) \<times> Tracker" where
  "registerHandler t now port =
     (let ts = (case map_of (miners t) port of
                  Some timer \<Rightarrow> timer_Stop (timers t) timer
                | None \<Rightarrow> timers t);
          new = length ts;
          ts' = ts @ [\<lparr>timer_port = port, fires_at = now + EntryTimeout, status = Pending\<rparr>];
          ms = AList.update port new (miners t);
          response = map fst ms
      in ((StatusOK, response), \<lparr>miners = ms, timers = ts'\<rparr>))"

text \<open>The callback of a timer, run under the lock when the timer fires.\<close>

definition timer_callback :: "Tracker \<Rightarrow> nat \<Rightarrow> Tracker" where
  "timer_callback t h =
     (if h < length (timers t) \<and> status (timers t ! h) = Pending then
        \<lparr>miners = AList.delete (timer_port (timers t ! h)) (miners t),
         timers = (timers t)[h := (timers t ! h)\<lparr>status := Fired\<rparr>]\<rparr>
      else t)"

section \<open>A small instance to run the model on\<close>

text \<open>
  Stand-ins for SHA-256 and RSA, for concrete runs only: 32-byte hashes that start with
  30 zero bytes and end with bytes computed from the input (the nonce of a header; the
  number of posts and the sum of their timestamps; the length of a content), and a
  signature that is valid iff it equals the hash of the body. The target is 16 bits.
\<close>

definition example_deps :: deps where
  "example_deps =
     \<lparr>Hash_header = (\<lambda>h. replicate 30 0 @ [0, ucast (Nonce h)]),
      Hash_posts = (\<lambda>ps. replicate 30 0 @
         [of_nat (length ps), sum_list (map (\<lambda>p. ucast (Timestamp (Body p))) ps)]),
      Hash_body = (\<lambda>b. replicate 30 0 @ [0, of_nat (length (Content b))]),
      rsa_VerifyPKCS1v15 = (\<lambda>k h sig. sig = h),
      TARGET = 16\<rparr>"

definition example_post :: "string \<Rightarrow> 64 word \<Rightarrow> Post" where
  "example_post c t =
     \<lparr>User = \<lparr>N = 3233, E = 65537\<rparr>,
      Signature = Hash_body example_deps \<lparr>Content = c, Timestamp = t\<rparr>,
      Body = \<lparr>Content = c, Timestamp = t\<rparr>\<rparr>"

definition example_block :: "byte list \<Rightarrow> 32 word \<Rightarrow> Post list \<Rightarrow> Block" where
  "example_block prev n ps =
     \<lparr>Header = \<lparr>PrevHash = prev, Summary = Hash_posts example_deps ps,
                BlockTimestamp = 0, Nonce = n\<rparr>,
      Posts = ps\<rparr>"

text \<open>
  A fork: a miner with two blocks and one pooled post, and a chain of three blocks that
  shares the first block with it.
\<close>

definition example_genesis :: Block where
  "example_genesis = example_block (replicate 32 0) 0 [example_post ''a'' 1]"

definition example_fork_miner :: Miner where
  "example_fork_miner =
     \<lparr>blockChain =
        [example_genesis,
         example_block (Hash_header example_deps (Header example_genesis)) 1
           [example_post ''b'' 2]],
      posts = [example_post ''a'' 1, example_post ''b'' 2],
      pool = [example_post ''c'' 3]\<rparr>"

definition example_fork_chain :: "Block list" where
  "example_fork_chain =
     [example_genesis,
      example_block (Hash_header example_deps (Header example_genesis)) 2
        [example_post ''c'' 3],
      example_block (replicate 30 0 @ [0, 2]) 3 []]"

definition example_fork_events :: "event list" where
  "example_fork_events =
     [Write_ev (example_post ''a'' 1), Search_ev 0 (\<lambda>i. 0), Commit_ev [3001],
      Write_ev (example_post ''b'' 2), Search_ev 0 (\<lambda>i. 1), Commit_ev [3001],
      Write_ev (example_post ''c'' 3)]"

text \<open>
  Twins: a node that mined a post, and a chain of two blocks that holds another post of
  the same author and timestamp with other content.
\<close>

definition example_twin_events :: "event list" where
  "example_twin_events =
     [Write_ev (example_post ''a'' 1), Search_ev 0 (\<lambda>i. 7), Commit_ev [3001]]"

definition example_twin_chain :: "Block list" where
  "example_twin_chain =
     [example_block (replicate 32 0) 0 [example_post ''bb'' 1],
      example_block (replicate 30 0 @ [0, 0]) 1 []]"

section \<open>Properties\<close>

subsection \<open>Bytes and words\<close>

lemma Uint32_PutUint32: "Uint32 (PutUint32 v) = v"
proof (rule bit_word_eqI)
  fix n assume "n < LENGTH(32)"
  then consider "n < 8" | "8 \<le> n \<and> n < 16" | "16 \<le> n \<and> n < 24" | "24 \<le> n \<and> n < 32"
    by fastforce
  then show "bit (Uint32 (PutUint32 v)) n = bit v n"
    by cases (auto simp add: Uint32_def PutUint32_def bit_simps)
qed

lemma ucast_E:
  fixes e :: "64 word"
  assumes "0 \<le> sint e" "sint e < 2 ^ 32"
  shows "ucast (ucast e :: 32 word) = e"
proof -
  have "uint e = take_bit LENGTH(64) (sint e)" by (rule uint_sint)
  also have "\<dots> = sint e" using assms by (simp add: take_bit_int_eq_self)
  finally have u: "uint e = sint e" .
  have "uint (ucast (ucast e :: 32 word) :: 64 word) = take_bit 64 (take_bit 32 (uint e))"
    by (simp add: unsigned_ucast_eq unsigned_take_bit_eq)
  also have "\<dots> = uint e" using assms u by (simp add: take_bit_int_eq_self)
  finally show ?thesis by (rule word_uint_eqI)
qed

lemma be_value_snoc: "be_value (bs @ [b]) = be_value bs * 256 + unat b"
  by (simp add: be_value_def)

lemma be_value_be_bytes: "be_value (be_bytes n) = n"
proof (induction n rule: be_bytes.induct)
  case (1 n)
  show ?case
  proof (cases "n = 0")
    case True
    then show ?thesis by (simp add: be_bytes.simps be_value_def)
  next
    case False
    have "be_bytes n = be_bytes (n div 256) @ [of_nat (n mod 256)]"
      using False by (subst be_bytes.simps) simp
    moreover have "unat (of_nat (n mod 256) :: byte) = n mod 256"
      by (simp add: unat_of_nat)
    ultimately show ?thesis using 1 False by (simp add: be_value_snoc)
  qed
qed

lemma be_bytes_nonempty: "0 < n \<Longrightarrow> be_bytes n \<noteq> []"
  by (subst be_bytes.simps) simp

lemma bytes_Compare_eq_0: "(bytes_Compare a b = 0) = (a = b)"
  by (induction a b rule: bytes_Compare.induct) auto

lemma bit_drop_byte: "bit (drop_bit n (b :: byte)) k = bit b (n + k)"
  by (simp add: bit_drop_bit_eq)

lemma top_bits:
  fixes b :: byte
  assumes "0 < m" "m < 8"
  shows "(drop_bit (8 - m) b = 0) = (\<forall>j<m. \<not> bit b (7 - j))"
proof
  assume z: "drop_bit (8 - m) b = 0"
  show "\<forall>j<m. \<not> bit b (7 - j)"
  proof (intro allI impI)
    fix j assume "j < m"
    have "\<not> bit (drop_bit (8 - m) b) (m - 1 - j)" using z by simp
    then have "\<not> bit b (8 - m + (m - 1 - j))" unfolding bit_drop_byte .
    moreover have "8 - m + (m - 1 - j) = 7 - j" using \<open>j < m\<close> assms by arith
    ultimately show "\<not> bit b (7 - j)" by simp
  qed
next
  assume a: "\<forall>j<m. \<not> bit b (7 - j)"
  show "drop_bit (8 - m) b = 0"
  proof (rule bit_word_eqI)
    fix n assume "n < LENGTH(8)"
    show "bit (drop_bit (8 - m) b) n = bit (0 :: byte) n"
    proof (cases "n < m")
      case True
      then have "m - 1 - n < m" using assms by arith
      then have nb: "\<not> bit b (7 - (m - 1 - n))" using a by blast
      have eq: "7 - (m - 1 - n) = 8 - m + n" using True assms by arith
      have "\<not> bit b (8 - m + n)" using nb unfolding eq .
      then show ?thesis by (simp only: bit_drop_byte) simp
    next
      case False
      then have "8 \<le> 8 - m + n" using assms by arith
      then have "\<not> bit b (8 - m + n)" by (auto dest: bit_imp_le_length)
      then show ?thesis by (simp only: bit_drop_byte) simp
    qed
  qed
qed

lemma byte_zero_iff: "((b :: byte) = 0) = (\<forall>j<8. \<not> bit b (7 - j))"
proof
  assume "b = 0" then show "\<forall>j<8. \<not> bit b (7 - j)" by simp
next
  assume a: "\<forall>j<8. \<not> bit b (7 - j)"
  show "b = 0"
  proof (rule bit_word_eqI)
    fix n assume "n < LENGTH(8)"
    then have "7 - n < 8" by simp
    then have "\<not> bit b (7 - (7 - n))" using a by blast
    moreover have "7 - (7 - n) = n" using \<open>n < LENGTH(8)\<close> by simp
    ultimately show "bit b n = bit (0 :: byte) n" by simp
  qed
qed

subsection \<open>The nonce check\<close>

lemma bytes_loop_Some:
  "i + k \<le> length hash \<Longrightarrow> bytes_loop hash i k = Some (\<forall>j<k. hash ! (i + j) = 0)"
proof (induction k arbitrary: i)
  case 0
  then show ?case by simp
next
  case (Suc k)
  show ?case using Suc.prems Suc.IH [of "Suc i"] by (auto simp: less_Suc_eq_0_disj)
qed

lemma leading_bit_at:
  assumes "leading_bits_zero n hash" and "q * 8 + j < n" and "j < 8"
  shows "\<not> bit (hash ! q) (7 - j)"
proof -
  have "q * 8 + j \<in> {..<n}" using assms(2) by simp
  then have "\<not> bit (hash ! ((q * 8 + j) div 8)) (7 - (q * 8 + j) mod 8)"
    using assms(1) unfolding leading_bits_zero_def by blast
  moreover have "(q * 8 + j) div 8 = q" using assms(3) by simp
  moreover have "(q * 8 + j) mod 8 = j" using assms(3) by simp
  ultimately show ?thesis by simp
qed

lemma leading_bits_zero_split:
  "leading_bits_zero n hash = bytes_then_bits_zero n hash"
proof
  assume l: "leading_bits_zero n hash"
  have "hash ! i = 0" if "i < n div 8" for i
  proof -
    have "\<not> bit (hash ! i) (7 - j)" if "j < 8" for j
    proof -
      have "Suc i \<le> n div 8" using \<open>i < n div 8\<close> by simp
      then have "Suc i * 8 \<le> n div 8 * 8" by simp
      also have "\<dots> \<le> n" by simp
      finally have "i * 8 + j < n" using \<open>j < 8\<close> by simp
      with l show ?thesis using that by (rule leading_bit_at)
    qed
    then show ?thesis by (simp add: byte_zero_iff)
  qed
  moreover have "\<not> bit (hash ! (n div 8)) (7 - j)" if "j < n mod 8" for j
  proof -
    have "n div 8 * 8 + n mod 8 = n" by simp
    then have "n div 8 * 8 + j < n" using that by linarith
    moreover have "j < 8" using that by (simp add: less_trans [OF that])
    ultimately show ?thesis by (rule leading_bit_at [OF l])
  qed
  ultimately show "bytes_then_bits_zero n hash" by (simp add: bytes_then_bits_zero_def)
next
  assume b: "bytes_then_bits_zero n hash"
  show "leading_bits_zero n hash"
    unfolding leading_bits_zero_def
  proof
    fix k assume "k \<in> {..<n}"
    then have kn: "k < n" by simp
    show "\<not> bit (hash ! (k div 8)) (7 - k mod 8)"
    proof (cases "k div 8 < n div 8")
      case True
      then have "hash ! (k div 8) = 0" using b by (simp add: bytes_then_bits_zero_def)
      then show ?thesis by simp
    next
      case False
      have "k div 8 \<le> n div 8" using kn by (simp add: div_le_mono)
      with False have d: "k div 8 = n div 8" by simp
      have "k div 8 * 8 + k mod 8 = k" "n div 8 * 8 + n mod 8 = n" by simp_all
      with kn d have "k mod 8 < n mod 8" by linarith
      then show ?thesis using b d by (simp add: bytes_then_bits_zero_def)
    qed
  qed
qed

lemma nonce_ok_eq:
  assumes "length hash = 32" and "target \<le> 256"
  shows "nonce_ok target hash = Some (bytes_then_bits_zero target hash)"
proof -
  define P where "P = (\<forall>j<target div 8. hash ! j = 0)"
  have d: "target div 8 \<le> 32" using assms by arith
  have loop: "bytes_loop hash 0 (target div 8) = Some P"
    using bytes_loop_Some [of 0 "target div 8" hash] d assms by (simp add: P_def)
  show ?thesis
  proof (cases "0 < target mod 8")
    case True
    then have lt: "target div 8 < 32" using assms by arith
    have m: "target mod 8 < 8" by simp
    have b: "bytes_then_bits_zero target hash =
             (P \<and> drop_bit (8 - target mod 8) (hash ! (target div 8)) = 0)"
      using top_bits [OF True m, of "hash ! (target div 8)"]
      by (simp add: bytes_then_bits_zero_def P_def Ball_def)
    show ?thesis
      using True lt assms loop by (cases P) (simp_all add: nonce_ok_def b)
  next
    case False
    then have b: "bytes_then_bits_zero target hash = P"
      by (simp add: bytes_then_bits_zero_def P_def Ball_def)
    show ?thesis
      using False loop by (cases P) (simp_all add: nonce_ok_def b)
  qed
qed

text \<open>
  C7. For a 32-byte hash and a target of at most 256 bits, the nonce check of \<open>mine\<close>
  returns without a panic, and it succeeds iff the first \<open>target\<close> bits of the hash are
  zero; that in turn is: the first \<open>target div 8\<close> bytes are zero and the top
  \<open>target mod 8\<close> bits of the byte at index \<open>target div 8\<close> are zero.
\<close>

theorem nonce_ok_iff_leading_bits_zero:
  assumes "length hash = 32" and "target \<le> 256"
  shows "nonce_ok target hash = Some (leading_bits_zero target hash)
       \<and> leading_bits_zero target hash = bytes_then_bits_zero target hash"
  using nonce_ok_eq [OF assms] by (simp add: leading_bits_zero_split)

theorem nonce_ok_iff_leading_bits_zero_witness:
  "length (replicate 32 (0 :: byte)) = 32 \<and> (20 :: nat) \<le> 256
   \<and> nonce_ok 20 (replicate 32 0) = Some (leading_bits_zero 20 (replicate 32 0))
   \<and> leading_bits_zero 20 (replicate 32 0) = bytes_then_bits_zero 20 (replicate 32 0)"
proof -
  have h1: "length (replicate 32 (0 :: byte)) = 32" by simp
  have h2: "(20 :: nat) \<le> 256" by simp
  show ?thesis using nonce_ok_iff_leading_bits_zero [OF h1 h2] h1 h2 by blast
qed

subsection \<open>The encoding of public keys\<close>

lemma PublicKey_roundtrip_aux:
  assumes "0 \<le> sint (E key)" and "sint (E key) < 2 ^ 32" and "0 < N key"
  shows "PublicKeyFromBytes (PublicKeyToBytes key) = Inr key"
proof -
  have l4: "length (PutUint32 v) = 4" for v by (simp add: PutUint32_def)
  have ne: "big_Bytes (N key) \<noteq> []"
    using assms(3) by (simp add: big_Bytes_def be_bytes_nonempty)
  have len: "\<not> length (PublicKeyToBytes key) \<le> 4"
    using ne by (simp add: PublicKeyToBytes_def l4)
  have n: "big_SetBytes (big_Bytes (N key)) = N key"
    using assms(3) by (simp add: big_SetBytes_def big_Bytes_def be_value_be_bytes)
  have e: "ucast (Uint32 (PutUint32 (ucast (E key)))) = E key"
    using assms by (simp add: Uint32_PutUint32 ucast_E)
  show ?thesis
    using len n e by (simp add: PublicKeyFromBytes_def) (simp add: PublicKeyToBytes_def l4)
qed

text \<open>
  C8. A public key with \<open>0 \<le> E < 2^32\<close> and a positive modulus is decoded from its own
  encoding unchanged (so \<open>E\<close> and \<open>N\<close> are equal), and decoding fails on every buffer of
  at most 4 bytes.
\<close>

theorem PublicKey_roundtrip:
  "(0 \<le> sint (E key) \<and> sint (E key) < 2 ^ 32 \<and> 0 < N key
      \<longrightarrow> PublicKeyFromBytes (PublicKeyToBytes key) = Inr key)
   \<and> (length buffer \<le> 4 \<longrightarrow> PublicKeyFromBytes buffer = Inl NotLongEnough)"
  by (simp add: PublicKey_roundtrip_aux) (simp add: PublicKeyFromBytes_def)

theorem PublicKey_roundtrip_witness:
  "0 \<le> sint (E \<lparr>N = 3233, E = 65537\<rparr>) \<and> sint (E \<lparr>N = 3233, E = 65537\<rparr>) < 2 ^ 32
   \<and> 0 < N \<lparr>N = 3233, E = 65537\<rparr>
   \<and> PublicKeyFromBytes (PublicKeyToBytes \<lparr>N = 3233, E = 65537\<rparr>) = Inr \<lparr>N = 3233, E = 65537\<rparr>
   \<and> length [1, 2, 3 :: byte] \<le> 4
   \<and> PublicKeyFromBytes [1, 2, 3] = Inl NotLongEnough"
  using PublicKey_roundtrip [of "\<lparr>N = 3233, E = 65537\<rparr>" "[1, 2, 3]"] by simp

subsection \<open>The comparator and the ordered sets\<close>

lemma cmp_eq_0_iff:
  "(cmp x y = 0) =
   (Timestamp (Body x) = Timestamp (Body y)
    \<and> PublicKeyToBytes (User x) = PublicKeyToBytes (User y))"
  by (simp add: cmp_def bytes_Compare_eq_0)

lemma cmp_refl: "cmp x x = 0"
  by (simp add: cmp_eq_0_iff)

lemma cmp_sym: "cmp x y = 0 \<Longrightarrow> cmp y x = 0"
  by (simp add: cmp_eq_0_iff)

lemma cmp_trans: "cmp x y = 0 \<Longrightarrow> cmp y z = 0 \<Longrightarrow> cmp x z = 0"
  by (simp add: cmp_eq_0_iff)

lemma cmp_cong: "cmp x y = 0 \<Longrightarrow> (cmp x z = 0) = (cmp y z = 0)"
  by (auto simp add: cmp_eq_0_iff)

lemma Contains_iff: "treeset_Contains s x = (\<exists>y \<in> set s. cmp x y = 0)"
  by (simp add: treeset_Contains_def list_ex_iff)

lemma Contains_Nil: "\<not> treeset_Contains [] x"
  by (simp add: Contains_iff)

lemma Contains_member: "x \<in> set s \<Longrightarrow> treeset_Contains s x"
  using cmp_refl by (auto simp: Contains_iff)

lemma Contains_cong: "cmp x y = 0 \<Longrightarrow> treeset_Contains s x = treeset_Contains s y"
  using cmp_cong [of x y] by (simp add: Contains_iff)

lemma Contains_Add:
  "treeset_Contains (treeset_Add s y) x = (cmp x y = 0 \<or> treeset_Contains s x)"
proof (induction s)
  case Nil
  show ?case by (simp add: Contains_iff)
next
  case (Cons z s)
  show ?case
  proof (cases "cmp y z = 0")
    case True
    then have "(cmp x z = 0) = (cmp x y = 0)"
      using cmp_trans [of x y z] cmp_trans [of x z y] cmp_sym [of y z] by blast
    with True show ?thesis by (auto simp: Contains_iff)
  next
    case False
    with Cons show ?thesis by (auto simp: Contains_iff)
  qed
qed

lemma Contains_Remove:
  "treeset_Contains (treeset_Remove s y) x = (treeset_Contains s x \<and> cmp x y \<noteq> 0)"
proof -
  have "cmp y z \<noteq> 0 = (cmp x y \<noteq> 0)" if "cmp x z = 0" for z
    using that cmp_trans [of x z y] cmp_trans [of z x y] cmp_sym [of x z] cmp_sym [of y z]
      cmp_sym [of z y]
    by blast
  then show ?thesis
    by (auto simp: Contains_iff treeset_Remove_def)
qed

lemma set_Add_new: "\<not> treeset_Contains s x \<Longrightarrow> set (treeset_Add s x) = insert x (set s)"
  by (induction s) (auto simp: Contains_iff)

lemma set_Add_subset: "set (treeset_Add s x) \<subseteq> insert x (set s)"
  by (induction s) auto

lemma Add_member: "x \<in> set (treeset_Add s x)"
  by (induction s) auto

subsection \<open>write\<close>

text \<open>
  C4. \<open>writeHandler\<close> answers 400 "invalid post" when the signature does not verify;
  otherwise 400 with a duplicate error when the index or the pool contains the post; in
  these cases the miner (chain, index and pool) is unchanged. Otherwise it answers 200
  and the only change is that the post is added to the pool.
\<close>

theorem writeHandler_cases:
  "(\<not> Post_Verify d post \<longrightarrow>
      writeHandler d m post = ((StatusBadRequest, Some ''invalid post''), m))
   \<and> (Post_Verify d post \<and> treeset_Contains (posts m) post \<longrightarrow>
      writeHandler d m post = ((StatusBadRequest, Some ''duplicated post on the blockchain''), m))
   \<and> (Post_Verify d post \<and> \<not> treeset_Contains (posts m) post \<and> treeset_Contains (pool m) post \<longrightarrow>
      writeHandler d m post = ((StatusBadRequest, Some ''duplicated post in the post''), m))
   \<and> (Post_Verify d post \<and> \<not> treeset_Contains (posts m) post \<and> \<not> treeset_Contains (pool m) post \<longrightarrow>
      writeHandler d m post = ((StatusOK, None), m\<lparr>pool := treeset_Add (pool m) post\<rparr>)
      \<and> set (treeset_Add (pool m) post) = insert post (set (pool m))
      \<and> (\<forall>x. treeset_Contains (treeset_Add (pool m) post) x
               = (cmp x post = 0 \<or> treeset_Contains (pool m) x)))"
  by (simp add: writeHandler_def set_Add_new Contains_Add)

subsection \<open>sync\<close>

lemma Contains_sync_loop:
  "treeset_Contains (sync_loop idx pl ps) x =
   (treeset_Contains pl x \<or> (\<exists>p \<in> set ps. cmp x p = 0 \<and> \<not> treeset_Contains idx p))"
proof (induction ps arbitrary: pl)
  case Nil
  show ?case by simp
next
  case (Cons p ps)
  show ?case
  proof (cases "treeset_Contains idx p \<or> treeset_Contains pl p")
    case True
    have "treeset_Contains pl x" if "cmp x p = 0" "\<not> treeset_Contains idx p"
      using that True Contains_cong [OF that(1), of pl] by blast
    with True show ?thesis by (auto simp: Cons.IH)
  next
    case False
    then show ?thesis by (auto simp: Cons.IH Contains_Add)
  qed
qed

lemma set_sync_loop_lower: "set pl \<subseteq> set (sync_loop idx pl ps)"
proof (induction ps arbitrary: pl)
  case Nil
  show ?case by simp
next
  case (Cons p ps)
  show ?case
  proof (cases "treeset_Contains idx p \<or> treeset_Contains pl p")
    case True
    then show ?thesis using Cons.IH [of pl] by simp
  next
    case False
    then have "set pl \<subseteq> set (treeset_Add pl p)" by (auto simp: set_Add_new)
    then show ?thesis using False Cons.IH [of "treeset_Add pl p"] by auto
  qed
qed

lemma set_sync_loop_upper: "set (sync_loop idx pl ps) \<subseteq> set pl \<union> set ps"
proof (induction ps arbitrary: pl)
  case Nil
  show ?case by simp
next
  case (Cons p ps)
  show ?case
    using Cons.IH [of pl] Cons.IH [of "treeset_Add pl p"] set_Add_subset [of pl p]
    by auto
qed

text \<open>
  C5. \<open>syncHandler\<close> answers 400 and changes nothing when some post of the batch fails
  verification. Otherwise it answers 200, leaves the chain and the index alone, and the
  new pool contains exactly what the old pool contained and the posts of the batch that
  the index does not contain: a post of the batch that the index or the pool contains is
  skipped, every other one is in the new pool. Nothing stored in the old pool is replaced
  and only posts of the batch are stored.
\<close>

theorem syncHandler_cases:
  "(list_ex (\<lambda>post. \<not> Post_Verify d post) ps \<longrightarrow>
      syncHandler d m ps = ((StatusBadRequest, Some ''posts are invalid''), m))
   \<and> (list_all (Post_Verify d) ps \<longrightarrow>
      fst (syncHandler d m ps) = (StatusOK, None)
      \<and> blockChain (snd (syncHandler d m ps)) = blockChain m
      \<and> posts (snd (syncHandler d m ps)) = posts m
      \<and> (\<forall>x. treeset_Contains (pool (snd (syncHandler d m ps))) x
               = (treeset_Contains (pool m) x
                  \<or> (\<exists>p \<in> set ps. cmp x p = 0 \<and> \<not> treeset_Contains (posts m) p)))
      \<and> (\<forall>p \<in> set ps. treeset_Contains (posts m) p
                         \<or> treeset_Contains (pool (snd (syncHandler d m ps))) p)
      \<and> set (pool m) \<subseteq> set (pool (snd (syncHandler d m ps)))
      \<and> set (pool (snd (syncHandler d m ps))) \<subseteq> set (pool m) \<union> set ps)"
proof -
  have v: "list_all (Post_Verify d) ps \<Longrightarrow> \<not> list_ex (\<lambda>post. \<not> Post_Verify d post) ps"
    by (simp add: list_all_iff list_ex_iff)
  have "treeset_Contains (posts m) p \<or> treeset_Contains (sync_loop (posts m) (pool m) ps) p"
    if "p \<in> set ps" for p
    using that cmp_refl [of p] by (auto simp: Contains_sync_loop)
  then show ?thesis
    using set_sync_loop_lower [of "pool m" "posts m" ps]
      set_sync_loop_upper [of "posts m" "pool m" ps]
    by (simp add: syncHandler_def v Contains_sync_loop)
qed

subsection \<open>The mining commit\<close>

lemma Contains_commit_loop_fst:
  "treeset_Contains (fst (commit_loop idx pl ps)) x =
   (treeset_Contains idx x \<or> (\<exists>p \<in> set ps. cmp x p = 0))"
  by (induction ps arbitrary: idx pl) (auto simp: Contains_Add)

lemma Contains_commit_loop_snd:
  "treeset_Contains (snd (commit_loop idx pl ps)) x =
   (treeset_Contains pl x \<and> \<not> (\<exists>p \<in> set ps. cmp x p = 0))"
  by (induction ps arbitrary: idx pl) (auto simp: Contains_Remove)

text \<open>
  C6. At the commit, a chain length other than the snapshot leaves the miner as it is and
  nothing is broadcast. With the length unchanged the block is appended, the index
  contains what it contained and the posts of the block, the pool contains what it
  contained except the posts of the block (so every post of the block is in the index and
  not in the pool), and the chain sent to the peers is the new chain.
\<close>

theorem mine_commit_cases:
  "(length (blockChain m) \<noteq> snapshot \<longrightarrow> mine_commit m peers snapshot block = (m, None))
   \<and> (length (blockChain m) = snapshot \<longrightarrow>
      blockChain (fst (mine_commit m peers snapshot block)) = blockChain m @ [block]
      \<and> snd (mine_commit m peers snapshot block) = Some (peers, blockChain m @ [block])
      \<and> (\<forall>p \<in> set (Posts block).
            treeset_Contains (posts (fst (mine_commit m peers snapshot block))) p
            \<and> \<not> treeset_Contains (pool (fst (mine_commit m peers snapshot block))) p)
      \<and> (\<forall>x. treeset_Contains (posts (fst (mine_commit m peers snapshot block))) x
               = (treeset_Contains (posts m) x \<or> (\<exists>p \<in> set (Posts block). cmp x p = 0)))
      \<and> (\<forall>x. treeset_Contains (pool (fst (mine_commit m peers snapshot block))) x
               = (treeset_Contains (pool m) x \<and> \<not> (\<exists>p \<in> set (Posts block). cmp x p = 0))))"
proof -
  obtain idx pl where c: "commit_loop (posts m) (pool m) (Posts block) = (idx, pl)"
    by (cases "commit_loop (posts m) (pool m) (Posts block)")
  have i: "treeset_Contains idx x
           = (treeset_Contains (posts m) x \<or> (\<exists>p \<in> set (Posts block). cmp x p = 0))" for x
    using Contains_commit_loop_fst [of "posts m" "pool m" "Posts block" x] c by simp
  have p: "treeset_Contains pl x
           = (treeset_Contains (pool m) x \<and> \<not> (\<exists>p \<in> set (Posts block). cmp x p = 0))" for x
    using Contains_commit_loop_snd [of "posts m" "pool m" "Posts block" x] c by simp
  have r: "\<exists>q \<in> set (Posts block). cmp p q = 0" if "p \<in> set (Posts block)" for p
    using that cmp_refl by blast
  show ?thesis
    using r by (simp add: mine_commit_def Let_def c i p)
qed

subsection \<open>Concrete runs of write, sync and the commit\<close>

lemma example_Post_Verify: "Post_Verify example_deps (example_post c t)"
  by (simp add: Post_Verify_def Verify_def example_deps_def example_post_def)

lemma example_cmp: "(cmp (example_post c t) (example_post c' t') = 0) = (t = t')"
  by (simp add: cmp_eq_0_iff example_post_def)

theorem writeHandler_cases_witness:
  "\<not> Post_Verify example_deps ((example_post ''hi'' 1)\<lparr>Signature := []\<rparr>)
   \<and> writeHandler example_deps NewMiner ((example_post ''hi'' 1)\<lparr>Signature := []\<rparr>)
       = ((StatusBadRequest, Some ''invalid post''), NewMiner)
   \<and> Post_Verify example_deps (example_post ''hi'' 1)
   \<and> treeset_Contains (posts (NewMiner\<lparr>posts := [example_post ''yo'' 1]\<rparr>)) (example_post ''hi'' 1)
   \<and> writeHandler example_deps (NewMiner\<lparr>posts := [example_post ''yo'' 1]\<rparr>) (example_post ''hi'' 1)
       = ((StatusBadRequest, Some ''duplicated post on the blockchain''),
          NewMiner\<lparr>posts := [example_post ''yo'' 1]\<rparr>)
   \<and> \<not> treeset_Contains (posts (NewMiner\<lparr>pool := [example_post ''hi'' 1]\<rparr>)) (example_post ''hi'' 1)
   \<and> treeset_Contains (pool (NewMiner\<lparr>pool := [example_post ''hi'' 1]\<rparr>)) (example_post ''hi'' 1)
   \<and> writeHandler example_deps (NewMiner\<lparr>pool := [example_post ''hi'' 1]\<rparr>) (example_post ''hi'' 1)
       = ((StatusBadRequest, Some ''duplicated post in the post''),
          NewMiner\<lparr>pool := [example_post ''hi'' 1]\<rparr>)
   \<and> \<not> treeset_Contains (posts NewMiner) (example_post ''hi'' 1)
   \<and> \<not> treeset_Contains (pool NewMiner) (example_post ''hi'' 1)
   \<and> writeHandler example_deps NewMiner (example_post ''hi'' 1)
       = ((StatusOK, None), NewMiner\<lparr>pool := [example_post ''hi'' 1]\<rparr>)"
proof -
  let ?p = "example_post ''hi'' 1"
  let ?bad = "?p\<lparr>Signature := []\<rparr>"
  have v: "Post_Verify example_deps ?p" by (rule example_Post_Verify)
  have nv: "\<not> Post_Verify example_deps ?bad"
    by (simp add: Post_Verify_def Verify_def example_deps_def example_post_def)
  have c1: "treeset_Contains (posts (NewMiner\<lparr>posts := [example_post ''yo'' 1]\<rparr>)) ?p"
    by (simp add: Contains_iff example_cmp)
  have c2: "\<not> treeset_Contains (posts (NewMiner\<lparr>pool := [?p]\<rparr>)) ?p"
    by (simp add: Contains_iff NewMiner_def)
  have c3: "treeset_Contains (pool (NewMiner\<lparr>pool := [?p]\<rparr>)) ?p"
    by (simp add: Contains_iff example_cmp)
  have c4: "\<not> treeset_Contains (posts NewMiner) ?p" "\<not> treeset_Contains (pool NewMiner) ?p"
    by (simp_all add: Contains_iff NewMiner_def)
  have a: "treeset_Add (pool NewMiner) ?p = [?p]" by (simp add: NewMiner_def)
  show ?thesis
    using writeHandler_cases [of example_deps ?bad NewMiner]
      writeHandler_cases [of example_deps ?p "NewMiner\<lparr>posts := [example_post ''yo'' 1]\<rparr>"]
      writeHandler_cases [of example_deps ?p "NewMiner\<lparr>pool := [?p]\<rparr>"]
      writeHandler_cases [of example_deps ?p NewMiner]
      v nv c1 c2 c3 c4 a
    by simp
qed

theorem syncHandler_cases_witness:
  "list_ex (\<lambda>post. \<not> Post_Verify example_deps post)
     [example_post ''a'' 1, (example_post ''b'' 2)\<lparr>Signature := []\<rparr>]
   \<and> syncHandler example_deps NewMiner [example_post ''a'' 1, (example_post ''b'' 2)\<lparr>Signature := []\<rparr>]
       = ((StatusBadRequest, Some ''posts are invalid''), NewMiner)
   \<and> list_all (Post_Verify example_deps) [example_post ''a'' 1, example_post ''b'' 2, example_post ''c'' 3]
   \<and> syncHandler example_deps
        \<lparr>blockChain = [], posts = [example_post ''a'' 1], pool = [example_post ''b'' 2]\<rparr>
        [example_post ''a'' 1, example_post ''b'' 2, example_post ''c'' 3]
       = ((StatusOK, None),
          \<lparr>blockChain = [], posts = [example_post ''a'' 1],
           pool = [example_post ''b'' 2, example_post ''c'' 3]\<rparr>)"
proof -
  let ?m = "\<lparr>blockChain = [], posts = [example_post ''a'' 1], pool = [example_post ''b'' 2]\<rparr>"
  let ?ps = "[example_post ''a'' 1, example_post ''b'' 2, example_post ''c'' 3]"
  let ?bad = "[example_post ''a'' 1, (example_post ''b'' 2)\<lparr>Signature := []\<rparr>]"
  have nv: "list_ex (\<lambda>post. \<not> Post_Verify example_deps post) ?bad"
    by (simp add: Post_Verify_def Verify_def example_deps_def example_post_def)
  have v: "list_all (Post_Verify example_deps) ?ps"
    by (simp add: example_Post_Verify)
  have lt: "cmp (example_post ''c'' 3) (example_post ''b'' 2) = 1"
    by (simp add: cmp_def example_post_def word_sless_alt)
  have r: "syncHandler example_deps ?m ?ps
           = ((StatusOK, None), ?m\<lparr>pool := [example_post ''b'' 2, example_post ''c'' 3]\<rparr>)"
    using v by (simp add: syncHandler_def list_all_iff list_ex_iff Contains_iff example_cmp lt)
  show ?thesis
    using syncHandler_cases [of example_deps ?bad NewMiner]
      syncHandler_cases [of example_deps ?ps ?m] nv v r
    by simp
qed

theorem mine_commit_cases_witness:
  "length (blockChain NewMiner) \<noteq> 1
   \<and> mine_commit NewMiner [3001] 1 (example_block (replicate 32 0) 7 []) = (NewMiner, None)
   \<and> length (blockChain \<lparr>blockChain = [], posts = [], pool = [example_post ''a'' 1, example_post ''b'' 2]\<rparr>) = 0
   \<and> mine_commit \<lparr>blockChain = [], posts = [], pool = [example_post ''a'' 1, example_post ''b'' 2]\<rparr>
        [3001] 0 (example_block (replicate 32 0) 7 [example_post ''a'' 1])
       = (\<lparr>blockChain = [example_block (replicate 32 0) 7 [example_post ''a'' 1]],
           posts = [example_post ''a'' 1], pool = [example_post ''b'' 2]\<rparr>,
          Some ([3001], [example_block (replicate 32 0) 7 [example_post ''a'' 1]]))"
proof -
  let ?m = "\<lparr>blockChain = [], posts = [], pool = [example_post ''a'' 1, example_post ''b'' 2]\<rparr>"
  let ?b = "example_block (replicate 32 0) 7 [example_post ''a'' 1]"
  have l: "length (blockChain NewMiner) \<noteq> 1" by (simp add: NewMiner_def)
  have p: "Posts ?b = [example_post ''a'' 1]" by (simp add: example_block_def)
  have r: "mine_commit ?m [3001] 0 ?b
           = (\<lparr>blockChain = [?b], posts = [example_post ''a'' 1], pool = [example_post ''b'' 2]\<rparr>,
              Some ([3001], [?b]))"
    by (simp add: mine_commit_def Let_def p treeset_Remove_def example_cmp)
  show ?thesis
    using mine_commit_cases [of NewMiner 1 "[3001]" "example_block (replicate 32 0) 7 []"]
      mine_commit_cases [of ?m 0 "[3001]" ?b] l r
    by simp
qed

subsection \<open>The loops of broadcast\<close>

lemma links_loop_iff:
  "links_loop d chain i k =
   (\<forall>j<k. PrevHash (Header (chain ! (i + j))) = Hash_header d (Header (chain ! (i + j - 1))))"
proof (induction k arbitrary: i)
  case 0
  show ?case by simp
next
  case (Suc k)
  show ?case using Suc.IH [of "Suc i"] by (auto simp: less_Suc_eq_0_disj)
qed

lemma links_loop_chain:
  "links_loop d chain 1 (length chain - 1) =
   (\<forall>i \<in> {1..<length chain}.
      PrevHash (Header (chain ! i)) = Hash_header d (Header (chain ! (i - 1))))"
proof -
  have "(\<forall>j<length chain - 1. P (Suc j)) = (\<forall>i \<in> {1..<length chain}. P i)" for P
  proof
    assume a: "\<forall>j<length chain - 1. P (Suc j)"
    show "\<forall>i \<in> {1..<length chain}. P i"
    proof
      fix i assume "i \<in> {1..<length chain}"
      then have "i - 1 < length chain - 1" "Suc (i - 1) = i" by auto
      with a show "P i" by metis
    qed
  next
    assume "\<forall>i \<in> {1..<length chain}. P i"
    then show "\<forall>j<length chain - 1. P (Suc j)" by auto
  qed
  from this [of "\<lambda>i. PrevHash (Header (chain ! i)) = Hash_header d (Header (chain ! (i - 1)))"]
  show ?thesis by (simp add: links_loop_iff)
qed

lemma cmp_distinct_append:
  "cmp_distinct (ps @ qs) =
   (cmp_distinct ps \<and> cmp_distinct qs \<and> (\<forall>p \<in> set ps. \<forall>q \<in> set qs. cmp p q \<noteq> 0))"
  by (induction ps) (auto simp: list_ex_iff)

lemma dup_loop_posts_None:
  "(dup_loop_posts acc ps = None) =
   (\<not> cmp_distinct ps \<or> (\<exists>p \<in> set ps. treeset_Contains acc p))"
proof (induction ps arbitrary: acc)
  case Nil
  show ?case by simp
next
  case (Cons p ps)
  have s: "(\<exists>q \<in> set ps. cmp q p = 0) = (\<exists>q \<in> set ps. cmp p q = 0)"
    using cmp_sym by blast
  show ?case
    using cmp_sym by (auto simp: Cons.IH Contains_Add list_ex_iff)
qed

lemma dup_loop_posts_Some:
  assumes "dup_loop_posts acc ps = Some acc'"
  shows "set acc' = set acc \<union> set ps"
    and "treeset_Contains acc' x = (treeset_Contains acc x \<or> (\<exists>p \<in> set ps. cmp x p = 0))"
  using assms
proof (induction ps arbitrary: acc)
  case Nil
  {
    case 1 then show ?case by simp
  next
    case 2 then show ?case by simp
  }
next
  case (Cons p ps)
  {
    case 1
    then have n: "\<not> treeset_Contains acc p"
      and r: "dup_loop_posts (treeset_Add acc p) ps = Some acc'"
      by (auto split: if_splits)
    show ?case using Cons.IH(1) [OF r] n by (auto simp: set_Add_new)
  next
    case 2
    then have r: "dup_loop_posts (treeset_Add acc p) ps = Some acc'"
      by (auto split: if_splits)
    show ?case using Cons.IH(2) [OF r] by (auto simp: Contains_Add)
  }
qed

lemma dup_loop_posts_append:
  "dup_loop_posts acc (ps @ qs) =
   (case dup_loop_posts acc ps of None \<Rightarrow> None | Some acc' \<Rightarrow> dup_loop_posts acc' qs)"
  by (induction ps arbitrary: acc) auto

lemma dup_loop_concat: "dup_loop acc bs = dup_loop_posts acc (concat (map Posts bs))"
  by (induction bs arbitrary: acc) (auto simp: dup_loop_posts_append split: option.splits)

lemma dup_loop_None: "(dup_loop [] bs = None) = (\<not> cmp_distinct (concat (map Posts bs)))"
  by (simp add: dup_loop_concat dup_loop_posts_None Contains_Nil)

lemma Contains_pool_loop:
  "treeset_Contains (pool_loop idx pl ps) x =
   (treeset_Contains pl x \<or> (\<not> treeset_Contains idx x \<and> (\<exists>p \<in> set ps. cmp x p = 0)))"
proof (induction ps arbitrary: pl)
  case Nil
  show ?case by simp
next
  case (Cons p ps)
  have c: "cmp x p = 0 \<Longrightarrow> treeset_Contains idx x = treeset_Contains idx p"
    by (rule Contains_cong)
  show ?case using c by (auto simp: Cons.IH Contains_Add)
qed

lemma pool_loop_append:
  "pool_loop idx pl (ps @ qs) = pool_loop idx (pool_loop idx pl ps) qs"
  by (induction ps arbitrary: pl) auto

lemma discard_loop_concat:
  "discard_loop idx pl bs = pool_loop idx pl (concat (map Posts bs))"
  by (induction bs arbitrary: pl) (auto simp: pool_loop_append)

lemma prefix_loop_ge: "i \<le> prefix_loop d chain newChain i"
proof (induction d chain newChain i rule: prefix_loop.induct)
  case (1 d chain newChain i)
  then show ?case by (subst prefix_loop.simps) auto
qed

lemma prefix_loop_same:
  "i \<le> j \<Longrightarrow> j < prefix_loop d chain newChain i \<Longrightarrow>
   Hash_header d (Header (chain ! j)) = Hash_header d (Header (newChain ! j))"
proof (induction d chain newChain i rule: prefix_loop.induct)
  case (1 d chain newChain i)
  show ?case
  proof (cases "i < length chain
      \<and> Hash_header d (Header (chain ! i)) = Hash_header d (Header (newChain ! i))")
    case True
    then have e: "prefix_loop d chain newChain i = prefix_loop d chain newChain (Suc i)"
      by (subst prefix_loop.simps) simp
    show ?thesis
    proof (cases "j = i")
      case True
      with \<open>i < length chain \<and> _\<close> show ?thesis by simp
    next
      case False
      with "1.prems" have "Suc i \<le> j" by simp
      then show ?thesis using "1.IH" True "1.prems" e by simp
    qed
  next
    case False
    then have "prefix_loop d chain newChain i = i"
      by (subst prefix_loop.simps) auto
    with "1.prems" show ?thesis by simp
  qed
qed

lemma prefix_loop_le: "i \<le> length chain \<Longrightarrow> prefix_loop d chain newChain i \<le> length chain"
proof (induction d chain newChain i rule: prefix_loop.induct)
  case (1 d chain newChain i)
  then show ?case by (subst prefix_loop.simps) auto
qed

subsection \<open>When broadcast switches\<close>

lemma broadcastHandler_ignore:
  assumes "length newChain \<le> length (blockChain m) \<or> \<not> Chain_valid_cmp d newChain"
  shows "broadcastHandler d m newChain = ((StatusOK, None), m)"
proof (cases "length newChain \<le> length (blockChain m)")
  case True
  then show ?thesis by (simp add: broadcastHandler_def)
next
  case False
  then have ne: "newChain \<noteq> []" by auto
  from False assms have "\<not> Chain_valid_cmp d newChain" by simp
  then have "list_ex (\<lambda>block. \<not> Block_Verify d block) newChain
     \<or> PrevHash (Header (newChain ! 0)) \<noteq> replicate 32 0
     \<or> \<not> links_loop d newChain 1 (length newChain - 1)
     \<or> dup_loop [] newChain = None"
    using ne unfolding Chain_valid_cmp_def links_loop_chain dup_loop_None list_ex_iff
    by blast
  then show ?thesis by (auto simp: broadcastHandler_def)
qed

lemma broadcastHandler_switch:
  assumes "length (blockChain m) < length newChain" and "Chain_valid_cmp d newChain"
  shows "\<exists>idx. dup_loop [] newChain = Some idx
     \<and> broadcastHandler d m newChain =
        ((StatusOK, None),
         \<lparr>blockChain = newChain, posts = idx,
          pool = discard_loop idx (pool_loop idx [] (pool m))
                   (drop (prefix_loop d (blockChain m) newChain 0) (blockChain m))\<rparr>)"
proof -
  from assms(1) have ne: "newChain \<noteq> []" and l: "\<not> length newChain \<le> length (blockChain m)"
    by auto
  from assms(2) ne have v: "\<not> list_ex (\<lambda>block. \<not> Block_Verify d block) newChain"
    and z: "PrevHash (Header (newChain ! 0)) = replicate 32 0"
    and k: "links_loop d newChain 1 (length newChain - 1)"
    and n: "dup_loop [] newChain \<noteq> None"
    unfolding Chain_valid_cmp_def links_loop_chain dup_loop_None list_ex_iff by blast+
  from n obtain idx where i: "dup_loop [] newChain = Some idx" by auto
  show ?thesis using l v z k i by (simp add: broadcastHandler_def Let_def)
qed

lemma cmp_distinct_blocks:
  fixes chain :: "Block list"
  assumes "cmp_distinct (concat (map Posts chain))"
    and "i < length chain" and "j < length chain" and "i \<noteq> j"
  shows "set (Posts (chain ! i)) \<inter> set (Posts (chain ! j)) = {}"
proof -
  have less: "set (Posts (c ! a)) \<inter> set (Posts (c ! b)) = {}"
    if "cmp_distinct (concat (map Posts c))" "a < b" "b < length c" for c :: "Block list" and a b
    using that
  proof (induction c arbitrary: a b)
    case Nil
    then show ?case by simp
  next
    case (Cons x c)
    from Cons.prems(1) have t: "cmp_distinct (concat (map Posts c))"
      and x: "\<forall>p \<in> set (Posts x). \<forall>q \<in> set (concat (map Posts c)). cmp p q \<noteq> 0"
      by (simp_all add: cmp_distinct_append)
    show ?case
    proof (cases a)
      case 0
      with Cons.prems obtain b' where b: "b = Suc b'" "b' < length c"
        by (cases b) auto
      then have "c ! b' \<in> set c" by simp
      then have "set (Posts (c ! b')) \<subseteq> set (concat (map Posts c))" by auto
      with x have "\<forall>p \<in> set (Posts x). \<forall>q \<in> set (Posts (c ! b')). cmp p q \<noteq> 0" by blast
      then have "set (Posts x) \<inter> set (Posts (c ! b')) = {}" using cmp_refl by blast
      with 0 b show ?thesis by simp
    next
      case (Suc a')
      with Cons.prems obtain b' where b: "b = Suc b'" "a' < b'" "b' < length c"
        by (cases b) auto
      with Suc Cons.IH [OF t, of a' b'] show ?thesis by simp
    qed
  qed
  from assms(4) consider "i < j" | "j < i" by linarith
  then show ?thesis
  proof cases
    case 1
    then show ?thesis using less [OF assms(1) 1 assms(3)] by simp
  next
    case 2
    then show ?thesis using less [OF assms(1) 2 assms(2)] by blast
  qed
qed

lemma Chain_valid_cmp_imp: "Chain_valid_cmp d chain \<Longrightarrow> Chain_valid d chain"
  unfolding Chain_valid_cmp_def Chain_valid_def
  using cmp_distinct_blocks [of chain] by auto

text \<open>
  C3. A received chain that is not longer than the local chain, or that fails a check of
  chain validity (a block that does not verify, a first previous-hash other than zeros, a
  link that does not match its predecessor's header hash, a post in two blocks), is
  answered 200 and the miner (chain, index and pool) is unchanged.
\<close>

theorem broadcastHandler_rejects:
  assumes "length newChain \<le> length (blockChain m) \<or> \<not> Chain_valid d newChain"
  shows "broadcastHandler d m newChain = ((StatusOK, None), m)"
  using assms Chain_valid_cmp_imp [of d newChain] broadcastHandler_ignore [of newChain m d]
  by blast

lemma example_nonce_ok: "nonce_ok 16 (replicate 30 0 @ [0, b]) = Some True"
proof -
  have l: "length (replicate 30 (0 :: byte) @ [0, b]) = 32" by simp
  have z: "(replicate 30 (0 :: byte) @ [0, b]) ! i = 0" if "i < 2" for i
    using that by (simp add: nth_append)
  have "bytes_then_bits_zero 16 (replicate 30 0 @ [0, b])"
    unfolding bytes_then_bits_zero_def using z by simp
  then show ?thesis using nonce_ok_eq [OF l, of 16] by simp
qed

lemma example_Block_Verify:
  "Block_Verify example_deps (example_block prev n ps) = list_all (Post_Verify example_deps) ps"
proof -
  have "nonce_ok (TARGET example_deps) (Hash_header example_deps (Header (example_block prev n ps)))
        = Some True"
    using example_nonce_ok [of "ucast n"] by (simp add: example_deps_def example_block_def)
  then show ?thesis by (simp add: Block_Verify_def example_block_def)
qed

lemma example_block_sel:
  "Posts (example_block prev n ps) = ps"
  "PrevHash (Header (example_block prev n ps)) = prev"
  "Nonce (Header (example_block prev n ps)) = n"
  by (simp_all add: example_block_def)

theorem broadcastHandler_rejects_witness:
  "length [example_block (replicate 32 0) 1 []]
     \<le> length (blockChain \<lparr>blockChain = [example_block (replicate 32 0) 0 []], posts = [], pool = []\<rparr>)
   \<and> broadcastHandler example_deps
        \<lparr>blockChain = [example_block (replicate 32 0) 0 []], posts = [], pool = []\<rparr>
        [example_block (replicate 32 0) 1 []]
       = ((StatusOK, None),
          \<lparr>blockChain = [example_block (replicate 32 0) 0 []], posts = [], pool = []\<rparr>)
   \<and> \<not> Chain_valid example_deps [example_block [] 0 []]
   \<and> broadcastHandler example_deps NewMiner [example_block [] 0 []] = ((StatusOK, None), NewMiner)"
proof -
  let ?m = "\<lparr>blockChain = [example_block (replicate 32 0) 0 []], posts = [], pool = []\<rparr>"
  have l: "length [example_block (replicate 32 0) 1 []] \<le> length (blockChain ?m)" by simp
  have n: "\<not> Chain_valid example_deps [example_block [] 0 []]"
    by (simp add: Chain_valid_def example_block_sel)
  show ?thesis
    using broadcastHandler_rejects [of "[example_block (replicate 32 0) 1 []]" ?m example_deps]
      broadcastHandler_rejects [of "[example_block [] 0 []]" NewMiner example_deps] l n
    by blast
qed

subsection \<open>Pool and index stay disjoint\<close>

lemma disjoint_writeHandler:
  assumes "\<forall>x. \<not> (treeset_Contains (pool m) x \<and> treeset_Contains (posts m) x)"
  shows "\<not> (treeset_Contains (pool (snd (writeHandler d m post))) x
            \<and> treeset_Contains (posts (snd (writeHandler d m post))) x)"
  using assms Contains_cong [of x post "posts m"]
  by (auto simp: writeHandler_def Contains_Add)

lemma disjoint_syncHandler:
  assumes "\<forall>x. \<not> (treeset_Contains (pool m) x \<and> treeset_Contains (posts m) x)"
  shows "\<not> (treeset_Contains (pool (snd (syncHandler d m ps))) x
            \<and> treeset_Contains (posts (snd (syncHandler d m ps))) x)"
  using assms Contains_cong [of x _ "posts m"]
  by (auto simp: syncHandler_def Contains_sync_loop)

lemma disjoint_broadcastHandler:
  assumes "\<forall>x. \<not> (treeset_Contains (pool m) x \<and> treeset_Contains (posts m) x)"
  shows "\<not> (treeset_Contains (pool (snd (broadcastHandler d m newChain))) x
            \<and> treeset_Contains (posts (snd (broadcastHandler d m newChain))) x)"
proof (cases "length newChain \<le> length (blockChain m) \<or> \<not> Chain_valid_cmp d newChain")
  case True
  then show ?thesis using assms by (simp add: broadcastHandler_ignore)
next
  case False
  then have "length (blockChain m) < length newChain" "Chain_valid_cmp d newChain" by auto
  from broadcastHandler_switch [OF this] obtain idx where
    "broadcastHandler d m newChain =
        ((StatusOK, None),
         \<lparr>blockChain = newChain, posts = idx,
          pool = discard_loop idx (pool_loop idx [] (pool m))
                   (drop (prefix_loop d (blockChain m) newChain 0) (blockChain m))\<rparr>)"
    by blast
  then show ?thesis
    by (auto simp: discard_loop_concat Contains_pool_loop Contains_Nil)
qed

lemma disjoint_mine_commit:
  assumes "\<forall>x. \<not> (treeset_Contains (pool m) x \<and> treeset_Contains (posts m) x)"
  shows "\<not> (treeset_Contains (pool (fst (mine_commit m peers snapshot block))) x
            \<and> treeset_Contains (posts (fst (mine_commit m peers snapshot block))) x)"
proof -
  obtain idx pl where c: "commit_loop (posts m) (pool m) (Posts block) = (idx, pl)"
    by (cases "commit_loop (posts m) (pool m) (Posts block)")
  have i: "treeset_Contains idx x
           = (treeset_Contains (posts m) x \<or> (\<exists>p \<in> set (Posts block). cmp x p = 0))"
    using Contains_commit_loop_fst [of "posts m" "pool m" "Posts block" x] c by simp
  have p: "treeset_Contains pl x
           = (treeset_Contains (pool m) x \<and> \<not> (\<exists>p \<in> set (Posts block). cmp x p = 0))"
    using Contains_commit_loop_snd [of "posts m" "pool m" "Posts block" x] c by simp
  show ?thesis using assms by (auto simp: mine_commit_def Let_def c i p)
qed

lemma disjoint_step:
  assumes "\<forall>x. \<not> (treeset_Contains (pool m) x \<and> treeset_Contains (posts m) x)"
  shows "\<not> (treeset_Contains (pool (step d m a)) x \<and> treeset_Contains (posts (step d m a)) x)"
proof (cases a)
  case (Write post)
  then show ?thesis using disjoint_writeHandler [OF assms] by simp
next
  case (Sync ps)
  then show ?thesis using disjoint_syncHandler [OF assms] by simp
next
  case (Broadcast newChain)
  then show ?thesis using disjoint_broadcastHandler [OF assms] by simp
next
  case (Commit peers snapshot block)
  then show ?thesis using disjoint_mine_commit [OF assms] by simp
qed

lemma disjoint_foldl:
  assumes "\<forall>x. \<not> (treeset_Contains (pool m) x \<and> treeset_Contains (posts m) x)"
  shows "\<forall>x. \<not> (treeset_Contains (pool (foldl (step d) m ops)) x
                 \<and> treeset_Contains (posts (foldl (step d) m ops)) x)"
  using assms
proof (induction ops arbitrary: m)
  case Nil
  then show ?case by simp
next
  case (Cons a ops)
  have "\<forall>x. \<not> (treeset_Contains (pool (step d m a)) x \<and> treeset_Contains (posts (step d m a)) x)"
    using disjoint_step [OF Cons.prems] by blast
  from Cons.IH [OF this] show ?case by simp
qed

text \<open>
  C2. After every prefix of every sequence of write, sync, broadcast and commit
  operations run from the initial state, no post is contained in both the pool and the
  accepted-post index; in particular no post is stored in both.
\<close>

theorem pool_index_disjoint:
  "\<not> (treeset_Contains (pool (run d (take n ops))) x
      \<and> treeset_Contains (posts (run d (take n ops))) x)
   \<and> set (pool (run d (take n ops))) \<inter> set (posts (run d (take n ops))) = {}"
proof -
  have i: "\<forall>x. \<not> (treeset_Contains (pool NewMiner) x \<and> treeset_Contains (posts NewMiner) x)"
    by (simp add: NewMiner_def Contains_Nil)
  have a: "\<forall>x. \<not> (treeset_Contains (pool (run d (take n ops))) x
                   \<and> treeset_Contains (posts (run d (take n ops))) x)"
    unfolding run_def by (rule disjoint_foldl [OF i])
  then have "set (pool (run d (take n ops))) \<inter> set (posts (run d (take n ops))) = {}"
    using Contains_member by blast
  with a show ?thesis by blast
qed

theorem pool_index_disjoint_witness:
  "run example_deps
     (take 3 [Write (example_post ''a'' 1), Write (example_post ''b'' 2),
              Commit [3001] 0 (example_block (replicate 32 0) 7 [example_post ''a'' 1]),
              Sync [example_post ''a'' 1]])
   = \<lparr>blockChain = [example_block (replicate 32 0) 7 [example_post ''a'' 1]],
      posts = [example_post ''a'' 1], pool = [example_post ''b'' 2]\<rparr>
   \<and> \<not> (treeset_Contains (pool (run example_deps
           (take 3 [Write (example_post ''a'' 1), Write (example_post ''b'' 2),
              Commit [3001] 0 (example_block (replicate 32 0) 7 [example_post ''a'' 1]),
              Sync [example_post ''a'' 1]]))) (example_post ''a'' 1)
        \<and> treeset_Contains (posts (run example_deps
           (take 3 [Write (example_post ''a'' 1), Write (example_post ''b'' 2),
              Commit [3001] 0 (example_block (replicate 32 0) 7 [example_post ''a'' 1]),
              Sync [example_post ''a'' 1]]))) (example_post ''a'' 1))"
proof -
  let ?ops = "[Write (example_post ''a'' 1), Write (example_post ''b'' 2),
              Commit [3001] 0 (example_block (replicate 32 0) 7 [example_post ''a'' 1]),
              Sync [example_post ''a'' 1]]"
  have gt: "cmp (example_post ''b'' 2) (example_post ''a'' 1) = 1"
    by (simp add: cmp_def example_post_def word_sless_alt)
  have t: "take 3 ?ops = [Write (example_post ''a'' 1), Write (example_post ''b'' 2),
              Commit [3001] 0 (example_block (replicate 32 0) 7 [example_post ''a'' 1])]"
    by (simp add: numeral_3_eq_3)
  have r: "run example_deps (take 3 ?ops)
     = \<lparr>blockChain = [example_block (replicate 32 0) 7 [example_post ''a'' 1]],
        posts = [example_post ''a'' 1], pool = [example_post ''b'' 2]\<rparr>"
    unfolding t
    by (simp add: run_def NewMiner_def writeHandler_def mine_commit_def Let_def
        example_Post_Verify Contains_iff example_cmp gt example_block_sel treeset_Remove_def)
  show ?thesis
    using pool_index_disjoint [of example_deps 3 ?ops "example_post ''a'' 1"] r by blast
qed

subsection \<open>Mining with an empty pool\<close>

lemma MineIter_header:
  "MineIter d hdr rnd i k = Some (hdr', b) \<Longrightarrow>
   PrevHash hdr' = PrevHash hdr \<and> Summary hdr' = Summary hdr
   \<and> BlockTimestamp hdr' = BlockTimestamp hdr"
proof (induction k arbitrary: hdr i)
  case 0
  then show ?case by simp
next
  case (Suc k)
  show ?case
  proof (cases "nonce_ok (TARGET d) (Hash_header d (hdr\<lparr>Nonce := rnd i\<rparr>))")
    case None
    with Suc.prems show ?thesis by (simp add: Let_def)
  next
    case (Some ok)
    show ?thesis
    proof (cases ok)
      case True
      with Some Suc.prems show ?thesis by (auto simp: Let_def)
    next
      case False
      with Some Suc.prems
      have "MineIter d (hdr\<lparr>Nonce := rnd i\<rparr>) rnd (Suc i) k = Some (hdr', b)"
        by (simp add: Let_def)
      from Suc.IH [OF this] show ?thesis by simp
    qed
  qed
qed

lemma MineIter_first:
  assumes "0 < k" and "nonce_ok (TARGET d) (Hash_header d (hdr\<lparr>Nonce := rnd i\<rparr>)) = Some True"
  shows "MineIter d hdr rnd i k = Some (hdr\<lparr>Nonce := rnd i\<rparr>, True)"
proof -
  from assms(1) obtain k' where "k = Suc k'" by (cases k) auto
  with assms(2) show ?thesis by (simp add: Let_def)
qed

lemma mine_prepare_empty:
  assumes "pool m = []"
  shows "fst (mine_prepare d m now) = length (blockChain m)"
    and "Posts (snd (mine_prepare d m now)) = []"
    and "Summary (Header (snd (mine_prepare d m now))) = Hash_posts d []"
  using assms by (simp_all add: mine_prepare_def Let_def)

lemma mine_commit_empty:
  assumes "length (blockChain m) = snapshot"
  shows "mine_commit m peers snapshot \<lparr>Header = hdr, Posts = []\<rparr>
         = (m\<lparr>blockChain := blockChain m @ [\<lparr>Header = hdr, Posts = []\<rparr>]\<rparr>,
            Some (peers, blockChain m @ [\<lparr>Header = hdr, Posts = []\<rparr>]))"
  using assms by (cases m) (simp add: mine_commit_def Let_def)

lemma mine_empty:
  assumes "pool m = []"
    and "MineIter d (Header (snd (mine_prepare d m now))) rnd 0 MiningIterations = Some (hdr, True)"
  shows "mine d m peers now rnd
         = Some (m\<lparr>blockChain := blockChain m @ [\<lparr>Header = hdr, Posts = []\<rparr>]\<rparr>,
                 Some (peers, blockChain m @ [\<lparr>Header = hdr, Posts = []\<rparr>]))"
proof -
  obtain snapshot block where p: "mine_prepare d m now = (snapshot, block)"
    by (cases "mine_prepare d m now")
  from mine_prepare_empty [OF assms(1), of d now] p
  have s: "snapshot = length (blockChain m)" and b: "Posts block = []" by simp_all
  have "block\<lparr>Header := hdr\<rparr> = \<lparr>Header = hdr, Posts = []\<rparr>"
    using b by (cases block) simp
  then show ?thesis
    using assms(2) p s mine_commit_empty [of m snapshot peers hdr]
    by (simp add: mine_def)
qed

lemma mine_passes_empty:
  assumes "pool m = []"
    and "\<forall>i<k. \<forall>h. \<exists>h'. MineIter d h (rnd i) 0 MiningIterations = Some (h', True)"
  shows "\<exists>bs. mine_passes d m peers clock rnd k = Some (m\<lparr>blockChain := blockChain m @ bs\<rparr>)
            \<and> length bs = k \<and> (\<forall>b \<in> set bs. Posts b = [])"
  using assms(2)
proof (induction k)
  case 0
  show ?case by (rule exI [of _ "[]"]) simp
next
  case (Suc k)
  then obtain bs where r: "mine_passes d m peers clock rnd k = Some (m\<lparr>blockChain := blockChain m @ bs\<rparr>)"
    and l: "length bs = k" and e: "\<forall>b \<in> set bs. Posts b = []"
    by auto
  let ?m = "m\<lparr>blockChain := blockChain m @ bs\<rparr>"
  have pe: "pool ?m = []" using assms(1) by simp
  from Suc.prems obtain hdr where
    "MineIter d (Header (snd (mine_prepare d ?m (clock k)))) (rnd k) 0 MiningIterations
     = Some (hdr, True)"
    by blast
  from mine_empty [OF pe this, of peers]
  have "mine_passes d m peers clock rnd (Suc k)
        = Some (m\<lparr>blockChain := blockChain m @ (bs @ [\<lparr>Header = hdr, Posts = []\<rparr>])\<rparr>)"
    using r by simp
  moreover have "length (bs @ [\<lparr>Header = hdr, Posts = []\<rparr>]) = Suc k" using l by simp
  moreover have "\<forall>b \<in> set (bs @ [\<lparr>Header = hdr, Posts = []\<rparr>]). Posts b = []" using e by simp
  ultimately show ?case by blast
qed

text \<open>
  C10. With an empty pool \<open>mine\<close> prepares a candidate block with no posts whose summary
  is the hash of the empty post list. When the search finds a nonce, \<open>mine\<close> appends that
  block, with no posts, to the chain and broadcasts the chain; the commit does so on any
  state whose chain length is the snapshot. The pool is still empty afterwards, and over
  \<open>k\<close> passes whose searches all succeed the chain grows by \<open>k\<close> blocks without posts.
\<close>

theorem mine_empty_pool:
  assumes "pool m = []"
  shows "Posts (snd (mine_prepare d m now)) = []
     \<and> Summary (Header (snd (mine_prepare d m now))) = Hash_posts d []
     \<and> (\<forall>hdr. MineIter d (Header (snd (mine_prepare d m now))) rnd 0 MiningIterations
                 = Some (hdr, True) \<longrightarrow>
          Summary hdr = Hash_posts d []
          \<and> mine d m peers now rnd
              = Some (m\<lparr>blockChain := blockChain m @ [\<lparr>Header = hdr, Posts = []\<rparr>]\<rparr>,
                      Some (peers, blockChain m @ [\<lparr>Header = hdr, Posts = []\<rparr>]))
          \<and> (\<forall>m2. length (blockChain m2) = fst (mine_prepare d m now) \<longrightarrow>
                blockChain (fst (mine_commit m2 peers (fst (mine_prepare d m now))
                                   \<lparr>Header = hdr, Posts = []\<rparr>))
                  = blockChain m2 @ [\<lparr>Header = hdr, Posts = []\<rparr>]))
     \<and> ((\<forall>i<k. \<forall>h. \<exists>h'. MineIter d h (draws i) 0 MiningIterations = Some (h', True)) \<longrightarrow>
          (\<exists>bs. mine_passes d m peers clock draws k = Some (m\<lparr>blockChain := blockChain m @ bs\<rparr>)
                \<and> length bs = k \<and> (\<forall>b \<in> set bs. Posts b = [])))"
proof -
  have a: "Summary hdr = Hash_posts d []"
    if "MineIter d (Header (snd (mine_prepare d m now))) rnd 0 MiningIterations = Some (hdr, True)"
    for hdr
    using MineIter_header [OF that] mine_prepare_empty(3) [OF assms, of d now] by simp
  have c: "blockChain (fst (mine_commit m2 peers (fst (mine_prepare d m now))
                                   \<lparr>Header = hdr, Posts = []\<rparr>))
                  = blockChain m2 @ [\<lparr>Header = hdr, Posts = []\<rparr>]"
    if "length (blockChain m2) = fst (mine_prepare d m now)" for m2 hdr
    using mine_commit_empty [OF that, of peers hdr] by simp
  show ?thesis
    using mine_prepare_empty(2,3) [OF assms, of d now] a c mine_empty [OF assms]
      mine_passes_empty [OF assms, of k d draws peers clock]
    by blast
qed

lemma example_MineIter:
  "MineIter example_deps h (\<lambda>i. n) 0 MiningIterations = Some (h\<lparr>Nonce := n\<rparr>, True)"
proof -
  have "nonce_ok (TARGET example_deps) (Hash_header example_deps (h\<lparr>Nonce := n\<rparr>)) = Some True"
    using example_nonce_ok [of "ucast n"] by (simp add: example_deps_def)
  then show ?thesis by (intro MineIter_first) (simp_all add: MiningIterations_def)
qed

theorem mine_empty_pool_witness:
  "pool NewMiner = []
   \<and> MineIter example_deps (Header (snd (mine_prepare example_deps NewMiner 5))) (\<lambda>i. 7) 0
        MiningIterations
      = Some (\<lparr>PrevHash = replicate 32 0, Summary = Hash_posts example_deps [],
               BlockTimestamp = 5, Nonce = 7\<rparr>, True)
   \<and> mine example_deps NewMiner [3001] 5 (\<lambda>i. 7)
      = Some (\<lparr>blockChain = [\<lparr>Header = \<lparr>PrevHash = replicate 32 0,
                                        Summary = Hash_posts example_deps [],
                                        BlockTimestamp = 5, Nonce = 7\<rparr>, Posts = []\<rparr>],
               posts = [], pool = []\<rparr>,
              Some ([3001], [\<lparr>Header = \<lparr>PrevHash = replicate 32 0,
                                       Summary = Hash_posts example_deps [],
                                       BlockTimestamp = 5, Nonce = 7\<rparr>, Posts = []\<rparr>]))
   \<and> (\<exists>bs. mine_passes example_deps NewMiner [3001] (\<lambda>i. 5) (\<lambda>i j. 7) 2
             = Some (NewMiner\<lparr>blockChain := blockChain NewMiner @ bs\<rparr>)
           \<and> length bs = 2 \<and> list_all (\<lambda>b. Posts b = []) bs)"
proof -
  let ?h = "\<lparr>PrevHash = replicate 32 0, Summary = Hash_posts example_deps [],
             BlockTimestamp = 5, Nonce = 7 :: 32 word\<rparr>"
  have e: "pool NewMiner = []" by (simp add: NewMiner_def)
  have h: "(Header (snd (mine_prepare example_deps NewMiner 5)))\<lparr>Nonce := 7\<rparr> = ?h"
    by (simp add: mine_prepare_def Let_def NewMiner_def)
  have s: "MineIter example_deps (Header (snd (mine_prepare example_deps NewMiner 5))) (\<lambda>i. 7) 0
             MiningIterations = Some (?h, True)"
    using example_MineIter [of "Header (snd (mine_prepare example_deps NewMiner 5))" 7] h
    by simp
  have k: "\<forall>i<2. \<forall>h. \<exists>h'. MineIter example_deps h ((\<lambda>i j. 7) i) 0 MiningIterations
                              = Some (h', True)"
    using example_MineIter by blast
  from mine_empty_pool [OF e, of example_deps 5 "\<lambda>i. 7" "[3001]" 2 "\<lambda>i j. 7" "\<lambda>i. 5"] s k
  have "mine example_deps NewMiner [3001] 5 (\<lambda>i. 7)
        = Some (NewMiner\<lparr>blockChain := blockChain NewMiner @ [\<lparr>Header = ?h, Posts = []\<rparr>]\<rparr>,
                Some ([3001], blockChain NewMiner @ [\<lparr>Header = ?h, Posts = []\<rparr>]))"
    and "\<exists>bs. mine_passes example_deps NewMiner [3001] (\<lambda>i. 5) (\<lambda>i j. 7) 2
             = Some (NewMiner\<lparr>blockChain := blockChain NewMiner @ bs\<rparr>)
           \<and> length bs = 2 \<and> (\<forall>b \<in> set bs. Posts b = [])"
    by blast+
  then show ?thesis using e s by (simp add: list_all_iff NewMiner_def)
qed

subsection \<open>The tracker\<close>

lemma length_timer_Stop: "length (timer_Stop ts h) = length ts"
  by (simp add: timer_Stop_def)

lemma timer_Stop_not_Pending: "h < length ts \<Longrightarrow> status (timer_Stop ts h ! h) \<noteq> Pending"
  by (simp add: timer_Stop_def)

lemma registerHandler_timers:
  "timers (snd (registerHandler t now port)) =
   (case map_of (miners t) port of Some h \<Rightarrow> timer_Stop (timers t) h | None \<Rightarrow> timers t)
   @ [\<lparr>timer_port = port, fires_at = now + EntryTimeout, status = Pending\<rparr>]"
  by (simp add: registerHandler_def Let_def)

lemma registerHandler_miners:
  "miners (snd (registerHandler t now port)) = AList.update port (length (timers t)) (miners t)"
  by (simp add: registerHandler_def Let_def length_timer_Stop split: option.splits)

text \<open>
  C9. \<open>registerHandler\<close> answers 200 for every tracker state and port. The answer lists
  exactly the ports of the map after the call, which are the ports it had before and the
  caller's. The caller's entry is a timer that did not exist before, pending, for the
  caller's port, due \<open>EntryTimeout\<close> from now; a timer the port had before is no longer
  pending; the entries of the other ports are as they were.
\<close>

theorem registerHandler_ok:
  "fst (fst (registerHandler t now port)) = StatusOK
   \<and> port \<in> set (snd (fst (registerHandler t now port)))
   \<and> set (snd (fst (registerHandler t now port))) = insert port (fst ` set (miners t))
   \<and> set (snd (fst (registerHandler t now port)))
       = fst ` set (miners (snd (registerHandler t now port)))
   \<and> map_of (miners (snd (registerHandler t now port))) port = Some (length (timers t))
   \<and> length (timers (snd (registerHandler t now port))) = Suc (length (timers t))
   \<and> timers (snd (registerHandler t now port)) ! length (timers t)
       = \<lparr>timer_port = port, fires_at = now + EntryTimeout, status = Pending\<rparr>
   \<and> (\<forall>h. map_of (miners t) port = Some h \<and> h < length (timers t) \<longrightarrow>
          status (timers (snd (registerHandler t now port)) ! h) \<noteq> Pending)
   \<and> (\<forall>q. q \<noteq> port \<longrightarrow>
          map_of (miners (snd (registerHandler t now port))) q = map_of (miners t) q)"
proof -
  let ?ts = "case map_of (miners t) port of Some h \<Rightarrow> timer_Stop (timers t) h | None \<Rightarrow> timers t"
  have l: "length ?ts = length (timers t)"
    by (simp add: length_timer_Stop split: option.splits)
  have r: "snd (fst (registerHandler t now port))
           = map fst (AList.update port (length (timers t)) (miners t))"
    by (simp add: registerHandler_def Let_def length_timer_Stop split: option.splits)
  have k: "fst ` set (AList.update port (length (timers t)) (miners t))
           = insert port (fst ` set (miners t))"
    using dom_update [of port "length (timers t)" "miners t"] by (simp add: dom_map_of_conv_image_fst)
  have s: "status (timers (snd (registerHandler t now port)) ! h) \<noteq> Pending"
    if "map_of (miners t) port = Some h" "h < length (timers t)" for h
    using that timer_Stop_not_Pending [of h "timers t"]
    by (simp add: registerHandler_timers nth_append length_timer_Stop)
  have n: "timers (snd (registerHandler t now port)) ! length (timers t)
       = \<lparr>timer_port = port, fires_at = now + EntryTimeout, status = Pending\<rparr>"
    using l by (simp add: registerHandler_timers nth_append)
  have "fst (fst (registerHandler t now port)) = StatusOK"
    by (simp add: registerHandler_def Let_def)
  moreover have "length (timers (snd (registerHandler t now port))) = Suc (length (timers t))"
    using l by (simp add: registerHandler_timers)
  moreover have "map_of (miners (snd (registerHandler t now port))) q
                 = (if q = port then Some (length (timers t)) else map_of (miners t) q)" for q
    by (simp add: registerHandler_miners update_conv')
  ultimately show ?thesis
    using s n by (simp add: r k registerHandler_miners)
qed

theorem registerHandler_ok_witness:
  "registerHandler
     \<lparr>miners = [(3000, 0)],
      timers = [\<lparr>timer_port = 3000, fires_at = 500000000, status = Pending\<rparr>]\<rparr> 200000000 3000
   = ((StatusOK, [3000]),
      \<lparr>miners = [(3000, 1)],
       timers = [\<lparr>timer_port = 3000, fires_at = 500000000, status = Stopped\<rparr>,
                 \<lparr>timer_port = 3000, fires_at = 700000000, status = Pending\<rparr>]\<rparr>)
   \<and> fst (fst (registerHandler NewTracker 0 3001)) = StatusOK
   \<and> 3001 \<in> set (snd (fst (registerHandler NewTracker 0 3001)))"
proof -
  have "registerHandler
     \<lparr>miners = [(3000, 0)],
      timers = [\<lparr>timer_port = 3000, fires_at = 500000000, status = Pending\<rparr>]\<rparr> 200000000 3000
   = ((StatusOK, [3000]),
      \<lparr>miners = [(3000, 1)],
       timers = [\<lparr>timer_port = 3000, fires_at = 500000000, status = Stopped\<rparr>,
                 \<lparr>timer_port = 3000, fires_at = 700000000, status = Pending\<rparr>]\<rparr>)"
    by (simp add: registerHandler_def Let_def timer_Stop_def EntryTimeout_def)
  then show ?thesis using registerHandler_ok [of NewTracker 0 3001] by blast
qed

subsection \<open>What holds of every node a run reaches\<close>

lemma cmp_distinct_Cons:
  "cmp_distinct (p # ps) = ((\<forall>q \<in> set ps. cmp p q \<noteq> 0) \<and> cmp_distinct ps)"
  by (simp add: list_ex_iff)

lemma cmp_distinct_filter: "cmp_distinct s \<Longrightarrow> cmp_distinct (filter P s)"
  by (induction s) (auto simp: list_ex_iff)

lemma cmp_distinct_take: "cmp_distinct s \<Longrightarrow> cmp_distinct (take n s)"
  using cmp_distinct_append [of "take n s" "drop n s"] by simp

lemma cmp_distinct_drop: "cmp_distinct s \<Longrightarrow> cmp_distinct (drop n s)"
  using cmp_distinct_append [of "take n s" "drop n s"] by simp

lemma cmp_distinct_Add:
  "cmp_distinct s \<Longrightarrow> \<not> treeset_Contains s x \<Longrightarrow> cmp_distinct (treeset_Add s x)"
proof (induction s)
  case Nil
  show ?case by simp
next
  case (Cons y ys)
  from Cons.prems have n: "cmp x y \<noteq> 0" and ny: "\<not> treeset_Contains ys x"
    and d: "cmp_distinct ys" and dy: "\<forall>q \<in> set ys. cmp y q \<noteq> 0"
    by (auto simp: Contains_iff list_ex_iff)
  from ny have nx: "\<forall>q \<in> set ys. cmp x q \<noteq> 0" by (simp add: Contains_iff)
  have yx: "cmp y x \<noteq> 0" using n cmp_sym by blast
  show ?case
  proof (cases "cmp x y < 0")
    case True
    then show ?thesis using n nx dy d by (simp add: list_ex_iff)
  next
    case False
    have "cmp_distinct (treeset_Add ys x)" using Cons.IH [OF d ny] .
    moreover have "\<forall>q \<in> set (treeset_Add ys x). cmp y q \<noteq> 0"
      using set_Add_new [OF ny] yx dy by simp
    ultimately show ?thesis using False n by (simp add: list_ex_iff)
  qed
qed

lemma disjoint_forms:
  "(\<forall>x \<in> set pl. \<not> treeset_Contains idx x)
   = (\<forall>x. \<not> (treeset_Contains pl x \<and> treeset_Contains idx x))"
proof
  assume a: "\<forall>x \<in> set pl. \<not> treeset_Contains idx x"
  show "\<forall>x. \<not> (treeset_Contains pl x \<and> treeset_Contains idx x)"
  proof (intro allI notI)
    fix x assume "treeset_Contains pl x \<and> treeset_Contains idx x"
    then obtain y where y: "y \<in> set pl" "cmp x y = 0" and i: "treeset_Contains idx x"
      by (auto simp: Contains_iff)
    from Contains_cong [OF y(2), of idx] i have "treeset_Contains idx y" by simp
    with a y(1) show False by blast
  qed
next
  assume "\<forall>x. \<not> (treeset_Contains pl x \<and> treeset_Contains idx x)"
  then show "\<forall>x \<in> set pl. \<not> treeset_Contains idx x"
    using Contains_member by blast
qed

lemma cmp_distinct_sync_loop:
  "cmp_distinct pl \<Longrightarrow> cmp_distinct (sync_loop idx pl ps)"
  by (induction ps arbitrary: pl) (auto simp: cmp_distinct_Add)

lemma pool_loop_sets:
  assumes "cmp_distinct acc" and "cmp_distinct ps" and "\<forall>x \<in> set ps. \<not> treeset_Contains acc x"
  shows "cmp_distinct (pool_loop idx acc ps)
       \<and> set (pool_loop idx acc ps) = set acc \<union> {x \<in> set ps. \<not> treeset_Contains idx x}"
  using assms
proof (induction ps arbitrary: acc)
  case Nil
  then show ?case by simp
next
  case (Cons x ps)
  from Cons.prems have dx: "\<forall>q \<in> set ps. cmp x q \<noteq> 0" and d: "cmp_distinct ps"
    and nx: "\<not> treeset_Contains acc x" and n: "\<forall>y \<in> set ps. \<not> treeset_Contains acc y"
    by (simp_all add: list_ex_iff)
  show ?case
  proof (cases "treeset_Contains idx x")
    case True
    with Cons.IH [OF Cons.prems(1) d n] show ?thesis by auto
  next
    case False
    have a: "cmp_distinct (treeset_Add acc x)" using Cons.prems(1) nx by (rule cmp_distinct_Add)
    have "\<not> treeset_Contains (treeset_Add acc x) y" if "y \<in> set ps" for y
    proof -
      have "cmp y x \<noteq> 0" using dx that cmp_sym by blast
      with n that show ?thesis by (simp add: Contains_Add)
    qed
    then have b: "\<forall>y \<in> set ps. \<not> treeset_Contains (treeset_Add acc x) y" by blast
    from Cons.IH [OF a d b] False set_Add_new [OF nx] show ?thesis by auto
  qed
qed

lemma cmp_distinct_commit_loop:
  "cmp_distinct pl \<Longrightarrow> cmp_distinct (snd (commit_loop idx pl ps))"
  by (induction ps arbitrary: idx pl) (auto simp: treeset_Remove_def cmp_distinct_filter)

lemma set_commit_loop: "set (snd (commit_loop idx pl ps)) \<subseteq> set pl"
proof (induction ps arbitrary: idx pl)
  case Nil
  show ?case by simp
next
  case (Cons p ps)
  have "set (treeset_Remove pl p) \<subseteq> set pl" by (auto simp: treeset_Remove_def)
  with Cons.IH [of "treeset_Add idx p" "treeset_Remove pl p"] show ?case by auto
qed

lemma miner_inv_NewMiner: "miner_inv d NewMiner"
  by (simp add: miner_inv_def NewMiner_def)

lemma writeHandler_frame:
  "blockChain (snd (writeHandler d m post)) = blockChain m"
  "posts (snd (writeHandler d m post)) = posts m"
  by (simp_all add: writeHandler_def)

lemma syncHandler_frame:
  "blockChain (snd (syncHandler d m ps)) = blockChain m"
  "posts (snd (syncHandler d m ps)) = posts m"
  by (simp_all add: syncHandler_def)

lemma miner_inv_writeHandler:
  assumes "miner_inv d m"
  shows "miner_inv d (snd (writeHandler d m post))"
proof -
  have dj: "\<forall>x \<in> set (pool (snd (writeHandler d m post))).
              \<not> treeset_Contains (posts (snd (writeHandler d m post))) x"
    unfolding disjoint_forms
    using assms disjoint_writeHandler [of m d post]
    by (simp add: miner_inv_def disjoint_forms)
  have "cmp_distinct (pool (snd (writeHandler d m post)))"
    using assms by (simp add: miner_inv_def writeHandler_def cmp_distinct_Add)
  with dj assms show ?thesis
    unfolding miner_inv_def writeHandler_frame by blast
qed

lemma miner_inv_syncHandler:
  assumes "miner_inv d m"
  shows "miner_inv d (snd (syncHandler d m ps))"
proof -
  have dj: "\<forall>x \<in> set (pool (snd (syncHandler d m ps))).
              \<not> treeset_Contains (posts (snd (syncHandler d m ps))) x"
    unfolding disjoint_forms
    using assms disjoint_syncHandler [of m d ps]
    by (simp add: miner_inv_def disjoint_forms)
  have "cmp_distinct (pool (snd (syncHandler d m ps)))"
    using assms by (simp add: miner_inv_def syncHandler_def cmp_distinct_sync_loop)
  with dj assms show ?thesis
    unfolding miner_inv_def syncHandler_frame by blast
qed

lemma pool_orphans_distinct:
  assumes "miner_inv d m"
  shows "cmp_distinct (pool m @ concat (map Posts (drop i (blockChain m))))"
proof -
  let ?c = "blockChain m"
  have s: "concat (map Posts ?c)
           = concat (map Posts (take i ?c)) @ concat (map Posts (drop i ?c))"
    by (metis append_take_drop_id concat_append map_append)
  from assms have dc: "cmp_distinct (concat (map Posts ?c))" by (simp add: miner_inv_def)
  then have do: "cmp_distinct (concat (map Posts (drop i ?c)))"
    unfolding s cmp_distinct_append by blast
  have sub: "set (concat (map Posts (drop i ?c))) \<subseteq> set (concat (map Posts ?c))"
    unfolding s by auto
  have "cmp x p \<noteq> 0" if "x \<in> set (pool m)" "p \<in> set (concat (map Posts (drop i ?c)))" for x p
  proof
    assume e: "cmp x p = 0"
    from that(2) sub assms have "treeset_Contains (posts m) p" by (auto simp: miner_inv_def)
    with Contains_cong [OF e, of "posts m"] have "treeset_Contains (posts m) x" by simp
    with that(1) assms show False by (simp add: miner_inv_def)
  qed
  with do assms show ?thesis by (simp add: cmp_distinct_append miner_inv_def)
qed

lemma switched_pool:
  "discard_loop idx (pool_loop idx [] pl) bs = pool_loop idx [] (pl @ concat (map Posts bs))"
  by (simp add: discard_loop_concat pool_loop_append)

lemma miner_inv_broadcastHandler:
  assumes "miner_inv d m"
  shows "miner_inv d (snd (broadcastHandler d m newChain))"
proof (cases "length newChain \<le> length (blockChain m) \<or> \<not> Chain_valid_cmp d newChain")
  case True
  then show ?thesis using assms by (simp add: broadcastHandler_ignore)
next
  case False
  then have l: "length (blockChain m) < length newChain" and v: "Chain_valid_cmp d newChain"
    by auto
  define i where "i = prefix_loop d (blockChain m) newChain 0"
  from broadcastHandler_switch [OF l v] obtain idx where
    dl: "dup_loop [] newChain = Some idx" and
    bh: "snd (broadcastHandler d m newChain) =
         \<lparr>blockChain = newChain, posts = idx,
          pool = pool_loop idx [] (pool m @ concat (map Posts (drop i (blockChain m))))\<rparr>"
    unfolding i_def by (auto simp: switched_pool)
  from dl have dp: "dup_loop_posts [] (concat (map Posts newChain)) = Some idx"
    by (simp add: dup_loop_concat)
  have s: "set idx = set (concat (map Posts newChain))"
    using dup_loop_posts_Some(1) [OF dp] by simp
  have p: "cmp_distinct (pool_loop idx [] (pool m @ concat (map Posts (drop i (blockChain m)))))"
    using pool_loop_sets [of "[]" _ idx] pool_orphans_distinct [OF assms, of i]
    by (simp add: Contains_Nil)
  have dj: "\<forall>x \<in> set (pool (snd (broadcastHandler d m newChain))).
              \<not> treeset_Contains (posts (snd (broadcastHandler d m newChain))) x"
    unfolding disjoint_forms
    using assms disjoint_broadcastHandler [of m d newChain]
    by (simp add: miner_inv_def disjoint_forms)
  have c: "\<forall>p \<in> set (concat (map Posts newChain)). treeset_Contains idx p"
    using s Contains_member by blast
  have sm: "\<forall>b \<in> set newChain. Summary (Header b) = Hash_posts d (Posts b)"
    using v by (simp add: Chain_valid_cmp_def Block_Verify_def)
  have dn: "cmp_distinct (concat (map Posts newChain))"
    using v by (simp add: Chain_valid_cmp_def)
  show ?thesis
    using p dj c sm dn unfolding miner_inv_def bh by simp
qed

lemma miner_inv_mine_commit:
  assumes "miner_inv d m" and "pending_inv d m p"
  shows "miner_inv d (fst (mine_commit m peers (fst p) (snd p)))"
proof (cases "length (blockChain m) = fst p")
  case False
  then show ?thesis using assms(1) by (simp add: mine_commit_def)
next
  case True
  let ?b = "snd p"
  obtain idx pl where c: "commit_loop (posts m) (pool m) (Posts ?b) = (idx, pl)"
    by (cases "commit_loop (posts m) (pool m) (Posts ?b)")
  have r: "fst (mine_commit m peers (fst p) ?b)
           = \<lparr>blockChain = blockChain m @ [?b], posts = idx, pool = pl\<rparr>"
    using True by (simp add: mine_commit_def Let_def c)
  from assms(2) True have db: "cmp_distinct (Posts ?b)"
    and nb: "\<forall>q \<in> set (Posts ?b). \<not> treeset_Contains (posts m) q"
    and sb: "Summary (Header ?b) = Hash_posts d (Posts ?b)"
    by (simp_all add: pending_inv_def)
  have i: "treeset_Contains idx x
           = (treeset_Contains (posts m) x \<or> (\<exists>q \<in> set (Posts ?b). cmp x q = 0))" for x
    using Contains_commit_loop_fst [of "posts m" "pool m" "Posts ?b" x] c by simp
  have pd: "cmp_distinct pl"
    using cmp_distinct_commit_loop [of "pool m" "posts m" "Posts ?b"] assms(1) c
    by (simp add: miner_inv_def)
  have dj: "\<forall>x \<in> set pl. \<not> treeset_Contains idx x"
    unfolding disjoint_forms
    using assms(1) disjoint_mine_commit [of m peers "fst p" ?b] r
    by (simp add: miner_inv_def disjoint_forms)
  have cross: "cmp q b \<noteq> 0"
    if "q \<in> set (concat (map Posts (blockChain m)))" "b \<in> set (Posts ?b)" for q b
  proof
    assume e: "cmp q b = 0"
    from that(1) assms(1) have "treeset_Contains (posts m) q" by (auto simp: miner_inv_def)
    with Contains_cong [OF e, of "posts m"] have "treeset_Contains (posts m) b" by simp
    with nb that(2) show False by blast
  qed
  have dc: "cmp_distinct (concat (map Posts (blockChain m @ [?b])))"
    using assms(1) db cross by (simp add: cmp_distinct_append miner_inv_def)
  have ci: "\<forall>q \<in> set (concat (map Posts (blockChain m @ [?b]))). treeset_Contains idx q"
  proof
    fix q assume "q \<in> set (concat (map Posts (blockChain m @ [?b])))"
    then consider "q \<in> set (concat (map Posts (blockChain m)))" | "q \<in> set (Posts ?b)"
      by auto
    then show "treeset_Contains idx q"
    proof cases
      case 1
      with assms(1) have "treeset_Contains (posts m) q" by (auto simp: miner_inv_def)
      then show ?thesis by (simp add: i)
    next
      case 2
      then have "\<exists>b \<in> set (Posts ?b). cmp q b = 0" using cmp_refl by blast
      then show ?thesis by (simp add: i)
    qed
  qed
  have sm: "\<forall>b \<in> set (blockChain m @ [?b]). Summary (Header b) = Hash_posts d (Posts b)"
    using assms(1) sb by (auto simp: miner_inv_def)
  show ?thesis
    using pd dj dc ci sm unfolding miner_inv_def r by simp
qed

lemma pending_inv_frame:
  assumes "pending_inv d m p" and "blockChain m' = blockChain m" and "posts m' = posts m"
  shows "pending_inv d m' p"
  using assms by (simp add: pending_inv_def)

lemma pending_inv_broadcastHandler:
  assumes "pending_inv d m p"
  shows "pending_inv d (snd (broadcastHandler d m newChain)) p"
proof (cases "length newChain \<le> length (blockChain m) \<or> \<not> Chain_valid_cmp d newChain")
  case True
  then show ?thesis using assms by (simp add: broadcastHandler_ignore)
next
  case False
  then have l: "length (blockChain m) < length newChain" and v: "Chain_valid_cmp d newChain"
    by auto
  from broadcastHandler_switch [OF l v]
  have "blockChain (snd (broadcastHandler d m newChain)) = newChain" by auto
  with assms l show ?thesis by (simp add: pending_inv_def)
qed

lemma pending_inv_mine_search:
  assumes "miner_inv d m" and "mine_search d m now rnd = Some p"
  shows "pending_inv d m p"
proof -
  obtain snapshot block where mp: "mine_prepare d m now = (snapshot, block)"
    by (cases "mine_prepare d m now")
  then have sn: "snapshot = length (blockChain m)"
    and pb: "Posts block = take PostsPerBlock (pool m)"
    and sb: "Summary (Header block) = Hash_posts d (take PostsPerBlock (pool m))"
    by (auto simp: mine_prepare_def Let_def)
  from assms(2) mp obtain hdr where
    mi: "MineIter d (Header block) rnd 0 MiningIterations = Some (hdr, True)"
    and p: "p = (snapshot, block\<lparr>Header := hdr\<rparr>)"
    by (auto simp: mine_search_def split: option.splits bool.splits)
  from MineIter_header [OF mi] sb have sh: "Summary hdr = Hash_posts d (take PostsPerBlock (pool m))"
    by simp
  have dt: "cmp_distinct (take PostsPerBlock (pool m))"
    using assms(1) by (simp add: miner_inv_def cmp_distinct_take)
  have "\<forall>q \<in> set (take PostsPerBlock (pool m)). \<not> treeset_Contains (posts m) q"
    using assms(1) by (auto simp: miner_inv_def dest: in_set_takeD)
  with dt sh show ?thesis by (simp add: pending_inv_def p sn pb)
qed

lemma node_inv_step:
  assumes "node_inv d s"
  shows "node_inv d (node_step d s e)"
proof (cases e)
  case (Write_ev post)
  show ?thesis
    using assms miner_inv_writeHandler [of d "miner s" post]
      pending_inv_frame [OF _ writeHandler_frame, of d "miner s" _ d post]
    by (auto simp: node_inv_def Write_ev split: option.splits)
next
  case (Sync_ev ps)
  show ?thesis
    using assms miner_inv_syncHandler [of d "miner s" ps]
      pending_inv_frame [OF _ syncHandler_frame, of d "miner s" _ d ps]
    by (auto simp: node_inv_def Sync_ev split: option.splits)
next
  case (Broadcast_ev newChain)
  show ?thesis
    using assms miner_inv_broadcastHandler [of d "miner s" newChain]
      pending_inv_broadcastHandler [of d "miner s" _ newChain]
    by (auto simp: node_inv_def Broadcast_ev split: option.splits)
next
  case (Search_ev now rnd)
  show ?thesis
    using assms pending_inv_mine_search [of d "miner s" now rnd]
    by (auto simp: node_inv_def Search_ev split: option.splits)
next
  case (Commit_ev peers)
  show ?thesis
    using assms miner_inv_mine_commit [of d "miner s" _ peers]
    by (auto simp: node_inv_def Commit_ev split: option.splits)
qed

lemma node_inv_foldl: "node_inv d s \<Longrightarrow> node_inv d (foldl (node_step d) s evs)"
  by (induction evs arbitrary: s) (simp_all add: node_inv_step)

lemma node_inv_run: "node_inv d (node_run d evs)"
  unfolding node_run_def
  by (rule node_inv_foldl) (simp add: node_inv_def miner_inv_NewMiner)

text \<open>
  A search followed at once by its commit is one call of \<open>mine\<close> with no handler in
  between.
\<close>

lemma mine_search_commit:
  assumes "MineIter d (Header (snd (mine_prepare d m now))) rnd 0 MiningIterations \<noteq> None"
  shows "mine d m peers now rnd
         = Some (case mine_search d m now rnd of
                   None \<Rightarrow> (m, None)
                 | Some p \<Rightarrow> mine_commit m peers (fst p) (snd p))"
proof -
  obtain snapshot block where mp: "mine_prepare d m now = (snapshot, block)"
    by (cases "mine_prepare d m now")
  with assms obtain hdr ok where "MineIter d (Header block) rnd 0 MiningIterations = Some (hdr, ok)"
    by auto
  then show ?thesis
    by (cases ok) (simp_all add: mine_def mine_search_def mp)
qed

subsection \<open>What broadcast does when it switches\<close>

lemma nth_in_drop: "i \<le> j \<Longrightarrow> j < length xs \<Longrightarrow> xs ! j \<in> set (drop i xs)"
proof -
  assume a: "i \<le> j" "j < length xs"
  then have "drop i xs ! (j - i) = xs ! j" "j - i < length (drop i xs)" by auto
  then show ?thesis by (metis nth_mem)
qed

lemma shared_prefix_posts:
  assumes lv: "\<forall>b \<in> set chain. Summary (Header b) = Hash_posts d (Posts b)"
    and ch: "\<forall>a \<in> set chain. \<forall>b \<in> set newChain.
               Hash_header d (Header a) = Hash_header d (Header b) \<longrightarrow> Header a = Header b"
    and cp: "\<forall>a \<in> set chain. \<forall>b \<in> set newChain.
               Hash_posts d (Posts a) = Hash_posts d (Posts b) \<longrightarrow> Posts a = Posts b"
    and v: "\<forall>b \<in> set newChain. Block_Verify d b"
    and len: "length chain < length newChain"
    and j: "j < prefix_loop d chain newChain 0"
  shows "Posts (chain ! j) = Posts (newChain ! j)"
proof -
  have "prefix_loop d chain newChain 0 \<le> length chain" by (simp add: prefix_loop_le)
  with j len have jc: "j < length chain" and jn: "j < length newChain" by auto
  then have mc: "chain ! j \<in> set chain" and mn: "newChain ! j \<in> set newChain" by simp_all
  have "Hash_header d (Header (chain ! j)) = Hash_header d (Header (newChain ! j))"
    using prefix_loop_same [of 0 j d chain newChain] j by simp
  with ch mc mn have h: "Header (chain ! j) = Header (newChain ! j)" by blast
  have "Summary (Header (newChain ! j)) = Hash_posts d (Posts (newChain ! j))"
    using v mn by (simp add: Block_Verify_def)
  moreover have "Summary (Header (chain ! j)) = Hash_posts d (Posts (chain ! j))"
    using lv mc by blast
  ultimately have "Hash_posts d (Posts (chain ! j)) = Hash_posts d (Posts (newChain ! j))"
    using h by simp
  with cp mc mn show ?thesis by blast
qed

lemma cmp_same_key_and_time: "(cmp x p = 0) = same_key_and_time p x"
  by (auto simp: cmp_eq_0_iff same_key_and_time_def)

text \<open>
  C1, amended. Take a miner reached by a run of write, sync, broadcast and mine, and a
  received chain strictly longer than its chain that passes the handler's validation:
  every block valid, first previous-hash all zeros, every link equal to the hash of the
  predecessor's header, and no two post occurrences of the chain, in one block or in
  two, with the same timestamp and public-key bytes. Then broadcast answers 200 and
  replaces the chain by the received chain; the index holds exactly the posts of the
  received chain; the pool holds exactly the posts of the old pool, and of the blocks of
  the old chain from the first position where the header hashes of the two chains
  differ, that share timestamp and public-key bytes with no post of the received chain.
  If no header or post list of the old chain has the hash of a different one of the
  received chain, then every post of the old pool and of the old chain is in the new
  pool, unless the received chain holds a post with its timestamp and public-key bytes
  (the post itself or another one).
\<close>

theorem broadcastHandler_accepts:
  assumes "m = miner (node_run d evs)"
    and "length (blockChain m) < length newChain"
    and "Chain_valid_cmp d newChain"
  shows "\<exists>idx pl.
     broadcastHandler d m newChain
       = ((StatusOK, None), \<lparr>blockChain = newChain, posts = idx, pool = pl\<rparr>)
     \<and> set idx = set (concat (map Posts newChain))
     \<and> set pl =
         {x \<in> set (pool m) \<union> set (concat (map Posts
                  (drop (prefix_loop d (blockChain m) newChain 0) (blockChain m)))).
            \<not> (\<exists>p \<in> set (concat (map Posts newChain)). same_key_and_time p x)}
     \<and> ((\<forall>a \<in> set (blockChain m). \<forall>b \<in> set newChain.
              Hash_header d (Header a) = Hash_header d (Header b) \<longrightarrow> Header a = Header b)
        \<and> (\<forall>a \<in> set (blockChain m). \<forall>b \<in> set newChain.
              Hash_posts d (Posts a) = Hash_posts d (Posts b) \<longrightarrow> Posts a = Posts b)
        \<longrightarrow> (\<forall>x \<in> set (pool m) \<union> set (concat (map Posts (blockChain m))).
               x \<in> set pl
               \<or> (\<exists>p \<in> set (concat (map Posts newChain)). same_key_and_time p x)))"
proof -
  define i where "i = prefix_loop d (blockChain m) newChain 0"
  define orphans where "orphans = concat (map Posts (drop i (blockChain m)))"
  define pl where "pl idx = pool_loop idx [] (pool m @ orphans)" for idx
  have inv: "miner_inv d m"
    using node_inv_run [of d evs] assms(1) by (simp add: node_inv_def)
  from broadcastHandler_switch [OF assms(2,3)] obtain idx where
    dl: "dup_loop [] newChain = Some idx" and
    bh: "broadcastHandler d m newChain
         = ((StatusOK, None), \<lparr>blockChain = newChain, posts = idx, pool = pl idx\<rparr>)"
    unfolding i_def orphans_def pl_def by (auto simp: switched_pool)
  from dl have dp: "dup_loop_posts [] (concat (map Posts newChain)) = Some idx"
    by (simp add: dup_loop_concat)
  have s: "set idx = set (concat (map Posts newChain))"
    using dup_loop_posts_Some(1) [OF dp] by simp
  have ci: "treeset_Contains idx x
            = (\<exists>p \<in> set (concat (map Posts newChain)). same_key_and_time p x)" for x
    by (simp add: Contains_iff s cmp_same_key_and_time)
  have sp: "set (pl idx) = {x \<in> set (pool m) \<union> set orphans.
              \<not> (\<exists>p \<in> set (concat (map Posts newChain)). same_key_and_time p x)}"
    using pool_loop_sets [of "[]" "pool m @ orphans" idx]
      pool_orphans_distinct [OF inv, of i]
    by (simp add: Contains_Nil pl_def orphans_def ci)
  have kept: "x \<in> set (pl idx)
              \<or> (\<exists>p \<in> set (concat (map Posts newChain)). same_key_and_time p x)"
    if ch: "\<forall>a \<in> set (blockChain m). \<forall>b \<in> set newChain.
              Hash_header d (Header a) = Hash_header d (Header b) \<longrightarrow> Header a = Header b"
      and cq: "\<forall>a \<in> set (blockChain m). \<forall>b \<in> set newChain.
              Hash_posts d (Posts a) = Hash_posts d (Posts b) \<longrightarrow> Posts a = Posts b"
      and x: "x \<in> set (pool m) \<union> set (concat (map Posts (blockChain m)))" for x
  proof (cases "x \<in> set (pool m) \<union> set orphans")
    case True
    then show ?thesis by (auto simp: sp)
  next
    case False
    with x obtain b where b: "b \<in> set (blockChain m)" and xb: "x \<in> set (Posts b)" by auto
    from b obtain j where j: "j < length (blockChain m)" "blockChain m ! j = b"
      by (auto simp: in_set_conv_nth)
    have "j < i"
    proof (rule ccontr)
      assume "\<not> j < i"
      then have "b \<in> set (drop i (blockChain m))" using nth_in_drop [of i j] j by auto
      with xb have "x \<in> set orphans" by (auto simp: orphans_def)
      with False show False by simp
    qed
    have lv: "\<forall>b \<in> set (blockChain m). Summary (Header b) = Hash_posts d (Posts b)"
      using inv by (simp add: miner_inv_def)
    have v: "\<forall>b \<in> set newChain. Block_Verify d b"
      using assms(3) by (simp add: Chain_valid_cmp_def)
    from \<open>j < i\<close> have "Posts (blockChain m ! j) = Posts (newChain ! j)"
      unfolding i_def using shared_prefix_posts [OF lv ch cq v assms(2)] by blast
    moreover have "newChain ! j \<in> set newChain" using j(1) assms(2) by simp
    ultimately have "x \<in> set (concat (map Posts newChain))" using xb j(2) by auto
    moreover have "same_key_and_time x x" by (simp add: same_key_and_time_def)
    ultimately show ?thesis by blast
  qed
  show ?thesis
  proof (rule exI [of _ idx], rule exI [of _ "pl idx"], intro conjI impI ballI)
    show "broadcastHandler d m newChain
       = ((StatusOK, None), \<lparr>blockChain = newChain, posts = idx, pool = pl idx\<rparr>)"
      by (rule bh)
    show "set idx = set (concat (map Posts newChain))" by (rule s)
    show "set (pl idx) =
         {x \<in> set (pool m) \<union> set (concat (map Posts
                  (drop (prefix_loop d (blockChain m) newChain 0) (blockChain m)))).
            \<not> (\<exists>p \<in> set (concat (map Posts newChain)). same_key_and_time p x)}"
      using sp unfolding orphans_def i_def .
    show "x \<in> set (pl idx)
          \<or> (\<exists>p \<in> set (concat (map Posts newChain)). same_key_and_time p x)"
      if "(\<forall>a \<in> set (blockChain m). \<forall>b \<in> set newChain.
              Hash_header d (Header a) = Hash_header d (Header b) \<longrightarrow> Header a = Header b)
        \<and> (\<forall>a \<in> set (blockChain m). \<forall>b \<in> set newChain.
              Hash_posts d (Posts a) = Hash_posts d (Posts b) \<longrightarrow> Posts a = Posts b)"
        and "x \<in> set (pool m) \<union> set (concat (map Posts (blockChain m)))" for x
      using that kept [of x] by blast
  qed
qed

subsection \<open>Concrete runs of broadcast\<close>

lemma example_cmp_val:
  "cmp (example_post c t) (example_post c' t') =
   (if t = t' then 0 else if word_sless t t' then - 1 else 1)"
  by (simp add: cmp_def example_post_def bytes_Compare_eq_0)

lemma example_Hash_header:
  "Hash_header example_deps (Header (example_block prev n ps)) = replicate 30 0 @ [0, ucast n]"
  by (simp add: example_deps_def example_block_def)

lemma example_fork_run:
  "broadcastHandler example_deps example_fork_miner example_fork_chain
   = ((StatusOK, None),
      \<lparr>blockChain = example_fork_chain,
       posts = [example_post ''a'' 1, example_post ''c'' 3],
       pool = [example_post ''b'' 2]\<rparr>)"
proof -
  have p: "prefix_loop example_deps (blockChain example_fork_miner) example_fork_chain 0 = Suc 0"
    by (simp add: prefix_loop.simps example_fork_miner_def example_fork_chain_def
        example_genesis_def example_Hash_header)
  have d: "dup_loop [] example_fork_chain = Some [example_post ''a'' 1, example_post ''c'' 3]"
    by (simp add: example_fork_chain_def example_genesis_def example_block_sel
        Contains_iff example_cmp_val word_sless_alt)
  have v: "\<not> list_ex (\<lambda>block. \<not> Block_Verify example_deps block) example_fork_chain"
    by (simp add: example_fork_chain_def example_genesis_def example_Block_Verify
        example_Post_Verify)
  have k: "links_loop example_deps example_fork_chain 1 (length example_fork_chain - 1)"
    by (simp add: example_fork_chain_def example_genesis_def example_block_sel
        example_Hash_header)
  have z: "PrevHash (Header (example_fork_chain ! 0)) = replicate 32 0"
    by (simp add: example_fork_chain_def example_genesis_def example_block_sel)
  have l: "\<not> length example_fork_chain \<le> length (blockChain example_fork_miner)"
    by (simp add: example_fork_chain_def example_fork_miner_def)
  have q: "discard_loop [example_post ''a'' 1, example_post ''c'' 3]
             (pool_loop [example_post ''a'' 1, example_post ''c'' 3] [] (pool example_fork_miner))
             (drop (Suc 0) (blockChain example_fork_miner))
           = [example_post ''b'' 2]"
    by (simp add: example_fork_miner_def example_block_sel Contains_iff example_cmp_val)
  show ?thesis
    using l v z k by (simp add: broadcastHandler_def d p q)
qed


lemma example_copy_bytes:
  "copy_bytes (replicate 32 0) (replicate 30 0 @ [0, b]) = replicate 30 0 @ [0, b]"
  by (simp add: copy_bytes_def)

lemma example_mine_search:
  "mine_search example_deps m 0 (\<lambda>i. n)
   = Some (length (blockChain m),
           example_block
             (if 0 < length (blockChain m)
              then copy_bytes (replicate 32 0)
                     (Hash_header example_deps (Header (last (blockChain m))))
              else replicate 32 0)
             n (take PostsPerBlock (pool m)))"
  by (simp add: mine_search_def mine_prepare_def Let_def example_MineIter example_block_def)

lemma example_fork_reached:
  "miner (node_run example_deps example_fork_events) = example_fork_miner"
proof -
  let ?a = "example_post ''a'' 1" and ?b = "example_post ''b'' 2" and ?c = "example_post ''c'' 3"
  let ?s1 = "\<lparr>miner = \<lparr>blockChain = [], posts = [], pool = [?a]\<rparr>,
              pending = Some (0, example_genesis)\<rparr>"
  let ?s2 = "\<lparr>miner = \<lparr>blockChain = [example_genesis], posts = [?a], pool = [?b]\<rparr>,
              pending = None\<rparr>"
  have w1: "node_step example_deps \<lparr>miner = NewMiner, pending = None\<rparr> (Write_ev ?a)
            = \<lparr>miner = \<lparr>blockChain = [], posts = [], pool = [?a]\<rparr>, pending = None\<rparr>"
    by (simp add: writeHandler_def NewMiner_def example_Post_Verify Contains_iff)
  have m1: "node_step example_deps
              \<lparr>miner = \<lparr>blockChain = [], posts = [], pool = [?a]\<rparr>, pending = None\<rparr>
              (Search_ev 0 (\<lambda>i. 0)) = ?s1"
    by (simp add: example_mine_search PostsPerBlock_def example_genesis_def)
  have c1: "node_step example_deps ?s1 (Commit_ev [3001])
            = \<lparr>miner = \<lparr>blockChain = [example_genesis], posts = [?a], pool = []\<rparr>,
               pending = None\<rparr>"
    by (simp add: mine_commit_def Let_def example_genesis_def example_block_sel
        treeset_Remove_def example_cmp_val)
  have w2: "node_step example_deps
              \<lparr>miner = \<lparr>blockChain = [example_genesis], posts = [?a], pool = []\<rparr>,
               pending = None\<rparr> (Write_ev ?b) = ?s2"
    by (simp add: writeHandler_def example_Post_Verify Contains_iff example_cmp_val)
  have m2: "node_step example_deps ?s2 (Search_ev 0 (\<lambda>i. 1))
            = ?s2\<lparr>pending := Some (1, example_block
                  (Hash_header example_deps (Header example_genesis)) 1 [?b])\<rparr>"
    by (simp add: example_mine_search PostsPerBlock_def example_genesis_def
        example_Hash_header example_copy_bytes)
  have c2: "node_step example_deps
              (?s2\<lparr>pending := Some (1, example_block
                  (Hash_header example_deps (Header example_genesis)) 1 [?b])\<rparr>)
              (Commit_ev [3001])
            = \<lparr>miner = \<lparr>blockChain =
                   [example_genesis,
                    example_block (Hash_header example_deps (Header example_genesis)) 1 [?b]],
                 posts = [?a, ?b], pool = []\<rparr>,
               pending = None\<rparr>"
    by (simp add: mine_commit_def Let_def example_block_sel treeset_Remove_def
        example_cmp_val word_sless_alt)
  have w3: "node_step example_deps
              \<lparr>miner = \<lparr>blockChain =
                   [example_genesis,
                    example_block (Hash_header example_deps (Header example_genesis)) 1 [?b]],
                 posts = [?a, ?b], pool = []\<rparr>,
               pending = None\<rparr> (Write_ev ?c)
            = \<lparr>miner = example_fork_miner, pending = None\<rparr>"
    by (simp add: writeHandler_def example_Post_Verify Contains_iff example_cmp_val
        example_fork_miner_def)
  show ?thesis
    by (simp only: node_run_def example_fork_events_def foldl.simps w1 m1 c1 w2 m2 c2 w3)
       simp
qed

lemma example_twin_reached:
  "miner (node_run example_deps example_twin_events)
   = \<lparr>blockChain = [example_block (replicate 32 0) 7 [example_post ''a'' 1]],
      posts = [example_post ''a'' 1], pool = []\<rparr>"
proof -
  let ?a = "example_post ''a'' 1"
  let ?s1 = "\<lparr>miner = \<lparr>blockChain = [], posts = [], pool = [?a]\<rparr>,
              pending = Some (0, example_block (replicate 32 0) 7 [?a])\<rparr>"
  have w1: "node_step example_deps \<lparr>miner = NewMiner, pending = None\<rparr> (Write_ev ?a)
            = \<lparr>miner = \<lparr>blockChain = [], posts = [], pool = [?a]\<rparr>, pending = None\<rparr>"
    by (simp add: writeHandler_def NewMiner_def example_Post_Verify Contains_iff)
  have m1: "node_step example_deps
              \<lparr>miner = \<lparr>blockChain = [], posts = [], pool = [?a]\<rparr>, pending = None\<rparr>
              (Search_ev 0 (\<lambda>i. 7)) = ?s1"
    by (simp add: example_mine_search PostsPerBlock_def)
  have c1: "node_step example_deps ?s1 (Commit_ev [3001])
            = \<lparr>miner = \<lparr>blockChain = [example_block (replicate 32 0) 7 [?a]],
                         posts = [?a], pool = []\<rparr>,
               pending = None\<rparr>"
    by (simp add: mine_commit_def Let_def example_block_sel treeset_Remove_def example_cmp_val)
  show ?thesis
    by (simp only: node_run_def example_twin_events_def foldl.simps w1 m1 c1) simp
qed

theorem broadcastHandler_accepts_witness:
  "example_fork_miner = miner (node_run example_deps example_fork_events)
   \<and> length (blockChain example_fork_miner) < length example_fork_chain
   \<and> Chain_valid_cmp example_deps example_fork_chain
   \<and> broadcastHandler example_deps example_fork_miner example_fork_chain
       = ((StatusOK, None),
          \<lparr>blockChain = example_fork_chain,
           posts = [example_post ''a'' 1, example_post ''c'' 3],
           pool = [example_post ''b'' 2]\<rparr>)
   \<and> example_post ''b'' 2 \<in> set (concat (map Posts (blockChain example_fork_miner)))
   \<and> example_post ''b'' 2 \<notin> set (concat (map Posts example_fork_chain))
   \<and> example_post ''b'' 2
       \<in> set (pool (snd (broadcastHandler example_deps example_fork_miner example_fork_chain)))"
proof -
  let ?d = example_deps and ?m = example_fork_miner and ?c = example_fork_chain
  let ?b = "example_post ''b'' 2"
  have e: "?m = miner (node_run ?d example_fork_events)"
    by (simp add: example_fork_reached)
  have l: "length (blockChain ?m) < length ?c"
    by (simp add: example_fork_chain_def example_fork_miner_def)
  have v: "Chain_valid_cmp ?d ?c"
    unfolding Chain_valid_cmp_def links_loop_chain [symmetric]
    by (simp add: example_fork_chain_def example_genesis_def
        example_Block_Verify example_Post_Verify example_block_sel example_Hash_header
        example_cmp_val)
  have hh: "\<forall>a \<in> set (blockChain ?m). \<forall>b \<in> set ?c.
      Hash_header ?d (Header a) = Hash_header ?d (Header b) \<longrightarrow> Header a = Header b"
    by (simp add: example_fork_miner_def example_fork_chain_def example_genesis_def
        example_Hash_header)
  have hp: "\<forall>a \<in> set (blockChain ?m). \<forall>b \<in> set ?c.
      Hash_posts ?d (Posts a) = Hash_posts ?d (Posts b) \<longrightarrow> Posts a = Posts b"
    by (simp add: example_fork_miner_def example_fork_chain_def example_genesis_def
        example_block_sel) (simp add: example_deps_def example_post_def)
  have old: "?b \<in> set (pool ?m) \<union> set (concat (map Posts (blockChain ?m)))"
    by (simp add: example_fork_miner_def example_block_sel)
  have n: "\<not> (\<exists>p \<in> set (concat (map Posts ?c)). same_key_and_time p ?b)"
    by (simp add: example_fork_chain_def example_genesis_def example_block_sel
        same_key_and_time_def example_post_def)
  from broadcastHandler_accepts [OF e l v] obtain idx pl where
    r: "broadcastHandler ?d ?m ?c = ((StatusOK, None), \<lparr>blockChain = ?c, posts = idx, pool = pl\<rparr>)"
    and kept: "(\<forall>a \<in> set (blockChain ?m). \<forall>b \<in> set ?c.
              Hash_header ?d (Header a) = Hash_header ?d (Header b) \<longrightarrow> Header a = Header b)
        \<and> (\<forall>a \<in> set (blockChain ?m). \<forall>b \<in> set ?c.
              Hash_posts ?d (Posts a) = Hash_posts ?d (Posts b) \<longrightarrow> Posts a = Posts b)
        \<longrightarrow> (\<forall>x \<in> set (pool ?m) \<union> set (concat (map Posts (blockChain ?m))).
               x \<in> set pl
               \<or> (\<exists>p \<in> set (concat (map Posts ?c)). same_key_and_time p x))"
    by blast
  from kept hh hp old n have "?b \<in> set pl" by blast
  with r have in_pool: "?b \<in> set (pool (snd (broadcastHandler ?d ?m ?c)))" by simp
  have on_old: "?b \<in> set (concat (map Posts (blockChain ?m)))"
    by (simp add: example_fork_miner_def example_block_sel)
  have not_new: "?b \<notin> set (concat (map Posts ?c))"
    by (simp add: example_fork_chain_def example_genesis_def example_block_sel
        example_post_def)
  show ?thesis using e l v example_fork_run in_pool on_old not_new by blast
qed

theorem broadcastHandler_switch_counterexample:
  "length (blockChain NewMiner)
     < length [example_block (replicate 32 0) 0 [example_post ''a'' 1, example_post ''a'' 1]]
   \<and> Chain_valid example_deps
        [example_block (replicate 32 0) 0 [example_post ''a'' 1, example_post ''a'' 1]]
   \<and> broadcastHandler example_deps NewMiner
        [example_block (replicate 32 0) 0 [example_post ''a'' 1, example_post ''a'' 1]]
       = ((StatusOK, None), NewMiner)
   \<and> blockChain NewMiner
       \<noteq> [example_block (replicate 32 0) 0 [example_post ''a'' 1, example_post ''a'' 1]]
   \<and> length (blockChain (miner (node_run example_deps example_twin_events)))
       < length example_twin_chain
   \<and> Chain_valid example_deps example_twin_chain
   \<and> example_post ''a'' 1
       \<in> set (concat (map Posts (blockChain (miner (node_run example_deps example_twin_events)))))
   \<and> broadcastHandler example_deps (miner (node_run example_deps example_twin_events))
        example_twin_chain
       = ((StatusOK, None),
          \<lparr>blockChain = example_twin_chain, posts = [example_post ''bb'' 1], pool = []\<rparr>)
   \<and> example_post ''a'' 1 \<notin> set (concat (map Posts example_twin_chain))
   \<and> example_post ''a'' 1
       \<notin> set (pool (snd (broadcastHandler example_deps
                            (miner (node_run example_deps example_twin_events))
                            example_twin_chain)))"
proof -
  let ?dup = "[example_block (replicate 32 0) 0 [example_post ''a'' 1, example_post ''a'' 1]]"
  let ?m = "\<lparr>blockChain = [example_block (replicate 32 0) 7 [example_post ''a'' 1]],
             posts = [example_post ''a'' 1], pool = []\<rparr>"
  have a1: "length (blockChain NewMiner) < length ?dup" by (simp add: NewMiner_def)
  have a2: "Chain_valid example_deps ?dup"
    unfolding Chain_valid_def links_loop_chain [symmetric]
    by (simp add: lessThan_Suc example_Block_Verify example_Post_Verify example_block_sel)
  have a3: "broadcastHandler example_deps NewMiner ?dup = ((StatusOK, None), NewMiner)"
    by (simp add: broadcastHandler_def NewMiner_def example_Block_Verify example_Post_Verify
        example_block_sel Contains_iff example_cmp_val)
  have a4: "blockChain NewMiner \<noteq> ?dup" by (simp add: NewMiner_def)
  have b1: "length (blockChain ?m) < length example_twin_chain"
    by (simp add: example_twin_chain_def)
  have b2: "Chain_valid example_deps example_twin_chain"
    unfolding Chain_valid_def links_loop_chain [symmetric]
    by (simp add: lessThan_Suc example_twin_chain_def example_Block_Verify
        example_Post_Verify example_block_sel example_Hash_header)
  have b3: "example_post ''a'' 1 \<in> set (concat (map Posts (blockChain ?m)))"
    by (simp add: example_block_sel)
  have p: "prefix_loop example_deps [example_block (replicate 32 0) 7 [example_post ''a'' 1]]
             example_twin_chain 0 = 0"
    by (simp add: prefix_loop.simps example_twin_chain_def example_Hash_header)
  have b4: "broadcastHandler example_deps ?m example_twin_chain
       = ((StatusOK, None),
          \<lparr>blockChain = example_twin_chain, posts = [example_post ''bb'' 1], pool = []\<rparr>)"
  proof -
    have l: "\<not> length example_twin_chain \<le> length (blockChain ?m)"
      using b1 by simp
    have v: "\<not> list_ex (\<lambda>block. \<not> Block_Verify example_deps block) example_twin_chain"
      by (simp add: example_twin_chain_def example_Block_Verify example_Post_Verify)
    have z: "PrevHash (Header (example_twin_chain ! 0)) = replicate 32 0"
      by (simp add: example_twin_chain_def example_block_sel)
    have k: "links_loop example_deps example_twin_chain 1 (length example_twin_chain - 1)"
      by (simp add: example_twin_chain_def example_block_sel example_Hash_header)
    have d: "dup_loop [] example_twin_chain = Some [example_post ''bb'' 1]"
      by (simp add: example_twin_chain_def example_block_sel Contains_iff)
    show ?thesis
      using l v z k
      by (simp add: broadcastHandler_def d p example_block_sel Contains_iff example_cmp_val)
  qed
  have b5: "example_post ''a'' 1 \<notin> set (concat (map Posts example_twin_chain))"
    by (simp add: example_twin_chain_def example_block_sel example_post_def)
  have b6: "example_post ''a'' 1
       \<notin> set (pool (snd (broadcastHandler example_deps ?m example_twin_chain)))"
    by (simp add: b4)
  show ?thesis
    unfolding example_twin_reached using a1 a2 a3 a4 b1 b2 b3 b4 b5 b6 by blast
qed

end
